theory Spec2Isabelle
  imports Main "HOL-Library.Word"
begin

unbundle bit_operations_syntax

section \<open>The flash programmer of IceBoard.cpp\<close>

text \<open>
  The program drives a serial NOR flash through the FT4222 USB-to-SPI bridge. Every
  function of \<^verbatim>\<open>IceBoard.cpp\<close> from \<^verbatim>\<open>WriteSPI\<close> to \<^verbatim>\<open>ValidateFlash\<close> is
  embedded below under its own name.

  \<^item> The header \<^verbatim>\<open>IceBoard.h\<close> is not among the sources. Its constants (sizes, bounds
    and opcodes) are the fields of the record \<open>config\<close>, which every function takes
    as the parameter \<open>g\<close>.
  \<^item> The vendor calls \<^verbatim>\<open>FT4222_SPIMaster_SingleWrite\<close> and
    \<^verbatim>\<open>FT4222_SPIMaster_SingleRead\<close> are the two fields of a record \<open>spi_driver\<close>
    over a state \<open>'d\<close> (bridge, bus and flash chip together). The global handle
    \<^verbatim>\<open>IceBoardHandle\<close> is that state, passed in and returned.
  \<^item> Every function returns its status, the new state and the list of transfers it
    issued, in order (\<open>event list\<close>): one event per call of \<^verbatim>\<open>WriteSPI\<close>,
    \<^verbatim>\<open>ReadSPI\<close> and \<^verbatim>\<open>Sleep\<close>.
  \<^item> \<^verbatim>\<open>size_t\<close> is a 64-bit word and \<^verbatim>\<open>uint16\<close> a 16-bit word where the source
    converts to them. Values of type \<^verbatim>\<open>int\<close> are \<open>nat\<close> where they count up from
    zero and \<open>int\<close> where the source subtracts; they are not wrapped, which is exact
    as long as they stay below \<open>2 ^ 31\<close>.
\<close>

subsection \<open>Status codes, constants, the driver\<close>

type_synonym uint8 = "8 word"
type_synonym uint16 = "16 word"
type_synonym size_t = "64 word"

text \<open>
  \<open>FT4222_VENDOR_ERROR n\<close> stands for the vendor's other status codes.
  \<open>UNDEFINED_BEHAVIOUR\<close> is not a status code: it marks a run that builds a vector
  from an iterator range outside its source vector, where C++ defines no result.
\<close>

datatype FT4222_STATUS =
    FT4222_OK
  | FT4222_VENDOR_ERROR nat
  | FT4222_INORRECT_TRANSFER_SIZE
  | FT4222_TIME_OUT_ERROR
  | FT4222_CORRUPTED_UPLOAD
  | UNDEFINED_BEHAVIOUR

record config =
  FLASH_PAGE_SIZE :: nat
  FLASH_SECTOR_SIZE :: nat
  MAX_READ_SIZE :: nat
  MAX_SECTOR_PROGRAM_ATTEMPTS :: nat
  MAX_WAIT_TIME_MS :: nat
  ReadStatusRegisterCmd :: uint8
  WriteEnableCmd :: uint8
  PageProgramCmd :: uint8
  SectorEraseCmd :: uint8
  ReadCmd :: uint8

text \<open>
  \<open>SingleWrite d buffer size isEndTransaction\<close> answers the status and the count of
  bytes transferred; \<open>SingleRead d size isEndTransaction\<close> answers the status, the
  count and the bytes read. The write receives the whole vector behind the pointer
  \<^verbatim>\<open>&writeBuffer[0]\<close> together with the 16-bit count it is asked to send.
\<close>

record 'd spi_driver =
  SingleWrite :: "'d \<Rightarrow> uint8 list \<Rightarrow> uint16 \<Rightarrow> bool \<Rightarrow> (FT4222_STATUS \<times> uint16) \<times> 'd"
  SingleRead :: "'d \<Rightarrow> uint16 \<Rightarrow> bool \<Rightarrow> (FT4222_STATUS \<times> uint16 \<times> uint8 list) \<times> 'd"

text \<open>
  \<open>SpiWrite buffer bytesToWrite isEndTransaction status\<close> is one call of
  \<^verbatim>\<open>WriteSPI\<close> with the status it returned, \<open>SpiRead bytesToRead isEndTransaction
  status buffer\<close> one call of \<^verbatim>\<open>ReadSPI\<close> with its status and the buffer as the
  call left it, \<open>Sleep ms\<close> one call of \<^verbatim>\<open>Sleep\<close>.
\<close>

datatype event =
    SpiWrite "uint8 list" nat bool FT4222_STATUS
  | SpiRead nat bool FT4222_STATUS "uint8 list"
  | Sleep nat

type_synonym 'd action = "'d \<Rightarrow> FT4222_STATUS \<times> 'd \<times> event list"

subsection \<open>Helpers of the embedding\<close>

text \<open>
  \<open>and_then f g\<close> is the source's
  \<^verbatim>\<open>status = f(); if (status != FT4222_OK) return status;\<close> followed by \<open>g\<close>.
\<close>

definition and_then :: "'d action \<Rightarrow> 'd action \<Rightarrow> 'd action" where
  "and_then f g d =
     (case f d of (status, d1, e1) \<Rightarrow>
        if status \<noteq> FT4222_OK then (status, d1, e1)
        else (case g d1 of (status2, d2, e2) \<Rightarrow> (status2, d2, e1 @ e2)))"

text \<open>Integer division of C++, which truncates towards zero.\<close>

definition c_div :: "int \<Rightarrow> int \<Rightarrow> int" where
  "c_div a b = sgn a * sgn b * (\<bar>a\<bar> div \<bar>b\<bar>)"

text \<open>
  \<^verbatim>\<open>std::vector<uint8> v(begin + first, begin + last)\<close>: defined only for a range
  inside the source vector.
\<close>

definition vec_range :: "'a list \<Rightarrow> nat \<Rightarrow> nat \<Rightarrow> 'a list option" where
  "vec_range xs first last' =
     (if first \<le> last' \<and> last' \<le> length xs then Some (take (last' - first) (drop first xs))
      else None)"

text \<open>\<^verbatim>\<open>v.resize(n)\<close>: cut, or filled up with zero bytes.\<close>

definition resize :: "uint8 list \<Rightarrow> nat \<Rightarrow> uint8 list" where
  "resize v n = take n v @ replicate (n - length v) 0"

text \<open>The bytes a read stores at the start of the buffer; the rest of it stays.\<close>

definition stored :: "uint8 list \<Rightarrow> uint8 list \<Rightarrow> uint8 list" where
  "stored data buffer = take (length buffer) data @ drop (length data) buffer"

subsection \<open>IntToByteVec, WriteSPI, ReadSPI\<close>

definition IntToByteVec :: "int \<Rightarrow> uint8 list" where
  "IntToByteVec x =
     [word_of_int (drop_bit 16 (x AND 0x00FF0000)),
      word_of_int (drop_bit 8 (x AND 0x0000FF00)),
      word_of_int (x AND 0x000000FF)]"

definition WriteSPI :: "'d spi_driver \<Rightarrow> uint8 list \<Rightarrow> nat \<Rightarrow> bool \<Rightarrow> 'd action" where
  "WriteSPI drv writeBuffer bytesToWrite isEndTransaction d =
     (case SingleWrite drv d writeBuffer (of_nat bytesToWrite) isEndTransaction of
        ((status, bytesTransferred), d') \<Rightarrow>
          let r = (if status \<noteq> FT4222_OK then status
                   else if unat bytesTransferred \<noteq> bytesToWrite then FT4222_INORRECT_TRANSFER_SIZE
                   else status)
          in (r, d', [SpiWrite writeBuffer bytesToWrite isEndTransaction r]))"

definition ReadSPI ::
  "'d spi_driver \<Rightarrow> uint8 list \<Rightarrow> nat \<Rightarrow> bool \<Rightarrow> 'd \<Rightarrow> (FT4222_STATUS \<times> uint8 list) \<times> 'd \<times> event list"
where
  "ReadSPI drv readBuffer bytesToRead isEndTransaction d =
     (case SingleRead drv d (of_nat bytesToRead) isEndTransaction of
        ((status, bytesRead, data), d') \<Rightarrow>
          let buffer = stored (take (unat (of_nat bytesToRead :: uint16)) data) readBuffer;
              r = (if status \<noteq> FT4222_OK then status
                   else if unat bytesRead \<noteq> bytesToRead then FT4222_INORRECT_TRANSFER_SIZE
                   else status)
          in ((r, buffer), d', [SpiRead bytesToRead isEndTransaction r buffer]))"

subsection \<open>WaitForFlashReady, WriteEnableFlash, EraseSector\<close>

function wait_loop ::
  "'d spi_driver \<Rightarrow> config \<Rightarrow> nat \<Rightarrow> uint8 list \<Rightarrow> 'd action"
where
  "wait_loop drv g i readBuffer d =
     (if i < MAX_WAIT_TIME_MS g then
        (case WriteSPI drv [ReadStatusRegisterCmd g] 1 False d of (status, d1, e1) \<Rightarrow>
           if status \<noteq> FT4222_OK then (status, d1, e1)
           else
             (case ReadSPI drv readBuffer (length readBuffer) True d1 of
                ((status2, readBuffer2), d2, e2) \<Rightarrow>
                  if status2 \<noteq> FT4222_OK then (status2, d2, e1 @ e2)
                  else if (readBuffer2 ! 0) AND 0x01 = 0x00 then (FT4222_OK, d2, e1 @ e2)
                  else
                    (case wait_loop drv g (i + 1) readBuffer2 d2 of
                       (status3, d3, e3) \<Rightarrow> (status3, d3, e1 @ e2 @ [Sleep 1] @ e3))))
      else (FT4222_TIME_OUT_ERROR, d, []))"
  by pat_completeness auto
termination
  by (relation "measure (\<lambda>(drv, g, i, readBuffer, d). MAX_WAIT_TIME_MS g - i)") auto

declare wait_loop.simps [simp del]

definition WaitForFlashReady :: "'d spi_driver \<Rightarrow> config \<Rightarrow> 'd action" where
  "WaitForFlashReady drv g d = wait_loop drv g 0 (replicate 1 0) d"

definition WriteEnableFlash :: "'d spi_driver \<Rightarrow> config \<Rightarrow> 'd action" where
  "WriteEnableFlash drv g = WriteSPI drv [WriteEnableCmd g] 1 True"

definition EraseSector :: "'d spi_driver \<Rightarrow> config \<Rightarrow> nat \<Rightarrow> 'd action" where
  "EraseSector drv g sectorIndex =
     (let writeBuffer = SectorEraseCmd g # IntToByteVec (int sectorIndex * int (FLASH_SECTOR_SIZE g))
      in and_then (WriteEnableFlash drv g)
           (and_then (WriteSPI drv writeBuffer (length writeBuffer) True)
              (WaitForFlashReady drv g)))"

subsection \<open>PageProgramFlash, SectorProgramFlash, ReadSectorFlash\<close>

definition PageProgramFlash :: "'d spi_driver \<Rightarrow> config \<Rightarrow> nat \<Rightarrow> uint8 list \<Rightarrow> 'd action" where
  "PageProgramFlash drv g pageIndex writeBuffer =
     (let startAddress = int pageIndex * int (FLASH_PAGE_SIZE g);
          commandAndAddressBuffer = PageProgramCmd g # IntToByteVec startAddress
      in and_then (WriteEnableFlash drv g)
           (and_then (WriteSPI drv commandAndAddressBuffer (length commandAndAddressBuffer) False)
              (and_then (WriteSPI drv writeBuffer (FLASH_PAGE_SIZE g) True)
                 (WaitForFlashReady drv g))))"

definition pageCount :: "config \<Rightarrow> uint8 list \<Rightarrow> int" where
  "pageCount g sectorBuffer =
     (if int (length sectorBuffer) < int (FLASH_SECTOR_SIZE g)
      then 1 + c_div (int (length sectorBuffer) - 1) (int (FLASH_PAGE_SIZE g))
      else int (FLASH_SECTOR_SIZE g div FLASH_PAGE_SIZE g))"

definition pageBuffer :: "config \<Rightarrow> uint8 list \<Rightarrow> nat \<Rightarrow> uint8 list option" where
  "pageBuffer g sectorBuffer i =
     vec_range sectorBuffer (i * FLASH_PAGE_SIZE g)
       (if int i = pageCount g sectorBuffer - 1 then length sectorBuffer
        else (i + 1) * FLASH_PAGE_SIZE g)"

function page_loop ::
  "'d spi_driver \<Rightarrow> config \<Rightarrow> nat \<Rightarrow> uint8 list \<Rightarrow> nat \<Rightarrow> 'd action"
where
  "page_loop drv g sectorIndex sectorBuffer i d =
     (if int i < pageCount g sectorBuffer then
        (case pageBuffer g sectorBuffer i of
           None \<Rightarrow> (UNDEFINED_BEHAVIOUR, d, [])
         | Some pb \<Rightarrow>
             (case PageProgramFlash drv g
                     (sectorIndex * (FLASH_SECTOR_SIZE g div FLASH_PAGE_SIZE g) + i) pb d of
                (status, d1, e1) \<Rightarrow>
                  if status \<noteq> FT4222_OK then (status, d1, e1)
                  else
                    (case page_loop drv g sectorIndex sectorBuffer (i + 1) d1 of
                       (status2, d2, e2) \<Rightarrow> (status2, d2, e1 @ e2))))
      else (FT4222_OK, d, []))"
  by pat_completeness auto
termination
  by (relation "measure (\<lambda>(drv, g, sectorIndex, sectorBuffer, i, d).
        nat (pageCount g sectorBuffer) - i)") auto

declare page_loop.simps [simp del]

definition SectorProgramFlash :: "'d spi_driver \<Rightarrow> config \<Rightarrow> nat \<Rightarrow> uint8 list \<Rightarrow> 'd action" where
  "SectorProgramFlash drv g sectorIndex sectorBuffer d = page_loop drv g sectorIndex sectorBuffer 0 d"

definition ReadSectorFlash ::
  "'d spi_driver \<Rightarrow> config \<Rightarrow> nat \<Rightarrow> uint8 list \<Rightarrow> 'd \<Rightarrow> (FT4222_STATUS \<times> uint8 list) \<times> 'd \<times> event list"
where
  "ReadSectorFlash drv g sectorIndex readBuffer d =
     (let commandAndAddressBuffer =
            ReadCmd g # IntToByteVec (int sectorIndex * int (FLASH_SECTOR_SIZE g))
      in case WriteSPI drv commandAndAddressBuffer (length commandAndAddressBuffer) False d of
           (status, d1, e1) \<Rightarrow>
             if status \<noteq> FT4222_OK then ((status, readBuffer), d1, e1)
             else
               (case ReadSPI drv (resize readBuffer (FLASH_SECTOR_SIZE g)) (FLASH_SECTOR_SIZE g) True d1 of
                  ((status2, readBuffer2), d2, e2) \<Rightarrow> ((status2, readBuffer2), d2, e1 @ e2)))"

subsection \<open>ProgramFlash\<close>

text \<open>
  \<open>sectorCount\<close> is computed in \<^verbatim>\<open>size_t\<close>, as the source does: the subtraction
  wraps around for an empty file. The loop index \<open>i\<close> counts up from zero, so the
  comparisons \<^verbatim>\<open>i < sectorCount\<close> and \<^verbatim>\<open>i == sectorCount - 1\<close> are taken on the
  value of the word.
\<close>

definition sectorCount :: "config \<Rightarrow> uint8 list \<Rightarrow> nat" where
  "sectorCount g fileBuffer =
     unat ((1 :: size_t) + (of_nat (length fileBuffer) - 1) div of_nat (FLASH_SECTOR_SIZE g))"

definition sectorBuffer :: "config \<Rightarrow> uint8 list \<Rightarrow> nat \<Rightarrow> nat \<Rightarrow> uint8 list option" where
  "sectorBuffer g fileBuffer i bufferPointer =
     vec_range fileBuffer bufferPointer
       (if i = sectorCount g fileBuffer - 1 then length fileBuffer
        else bufferPointer + FLASH_SECTOR_SIZE g)"

definition bytesToTransmit :: "config \<Rightarrow> uint8 list \<Rightarrow> nat \<Rightarrow> int" where
  "bytesToTransmit g fileBuffer i =
     (if i = sectorCount g fileBuffer - 1
      then int (length fileBuffer) - int i * int (FLASH_SECTOR_SIZE g)
      else int (FLASH_SECTOR_SIZE g))"

definition errorCount :: "uint8 list \<Rightarrow> uint8 list \<Rightarrow> int \<Rightarrow> nat" where
  "errorCount readBuffer sb n =
     length (filter (\<lambda>j. readBuffer ! j \<noteq> sb ! j) [0..<nat n])"

text \<open>
  The loop \<^verbatim>\<open>while (!success)\<close> for sector \<open>i\<close>. It answers \<open>FT4222_OK\<close> when the
  loop is left with \<open>success\<close>, and the status of the \<^verbatim>\<open>return\<close> otherwise. \<open>evs\<close>
  are the transfers issued so far. Nothing bounds the loop when
  \<open>MAX_SECTOR_PROGRAM_ATTEMPTS\<close> is below the count of attempts made, so it is a
  partial function: \<open>None\<close> is the run that never returns.
\<close>

partial_function (option) sector_attempts ::
  "'d spi_driver \<Rightarrow> config \<Rightarrow> uint8 list \<Rightarrow> nat \<Rightarrow> nat \<Rightarrow> nat \<Rightarrow> uint8 list \<Rightarrow> 'd \<Rightarrow> event list
   \<Rightarrow> ((FT4222_STATUS \<times> uint8 list) \<times> 'd \<times> event list) option"
where
  "sector_attempts drv g fileBuffer i bufferPointer attempts readBuffer d evs =
     (case sectorBuffer g fileBuffer i bufferPointer of
        None \<Rightarrow> Some ((UNDEFINED_BEHAVIOUR, readBuffer), d, evs)
      | Some sb \<Rightarrow>
          (case SectorProgramFlash drv g i sb d of (status, d1, e1) \<Rightarrow>
             if status \<noteq> FT4222_OK then Some ((status, readBuffer), d1, evs @ e1)
             else
               (case ReadSectorFlash drv g i readBuffer d1 of ((status2, readBuffer2), d2, e2) \<Rightarrow>
                  if status2 \<noteq> FT4222_OK then Some ((status2, readBuffer2), d2, evs @ e1 @ e2)
                  else
                    (case (if errorCount readBuffer2 sb (bytesToTransmit g fileBuffer i) > 0
                           then EraseSector drv g i d2 else (status2, d2, [])) of
                       (status3, d3, e3) \<Rightarrow>
                         if status3 \<noteq> FT4222_OK
                         then Some ((status3, readBuffer2), d3, evs @ e1 @ e2 @ e3)
                         else if attempts + 1 = MAX_SECTOR_PROGRAM_ATTEMPTS g
                         then Some ((FT4222_CORRUPTED_UPLOAD, readBuffer2), d3, evs @ e1 @ e2 @ e3)
                         else if errorCount readBuffer2 sb (bytesToTransmit g fileBuffer i) = 0
                         then Some ((status3, readBuffer2), d3, evs @ e1 @ e2 @ e3)
                         else sector_attempts drv g fileBuffer i bufferPointer (attempts + 1)
                                readBuffer2 d3 (evs @ e1 @ e2 @ e3)))))"

declare sector_attempts.simps [code]

function sector_loop ::
  "'d spi_driver \<Rightarrow> config \<Rightarrow> uint8 list \<Rightarrow> nat \<Rightarrow> nat \<Rightarrow> uint8 list \<Rightarrow> 'd \<Rightarrow> event list
   \<Rightarrow> (FT4222_STATUS \<times> 'd \<times> event list) option"
where
  "sector_loop drv g fileBuffer i bufferPointer readBuffer d evs =
     (if i < sectorCount g fileBuffer then
        (case sector_attempts drv g fileBuffer i bufferPointer 0 readBuffer d evs of
           None \<Rightarrow> None
         | Some ((status, readBuffer2), d2, evs2) \<Rightarrow>
             if status \<noteq> FT4222_OK then Some (status, d2, evs2)
             else sector_loop drv g fileBuffer (i + 1) (bufferPointer + FLASH_SECTOR_SIZE g)
                    readBuffer2 d2 evs2)
      else Some (FT4222_OK, d, evs))"
  by pat_completeness auto
termination
  by (relation "measure (\<lambda>(drv, g, fileBuffer, i, bufferPointer, readBuffer, d, evs).
        sectorCount g fileBuffer - i)") auto

declare sector_loop.simps [simp del]

definition ProgramFlash ::
  "'d spi_driver \<Rightarrow> config \<Rightarrow> uint8 list \<Rightarrow> 'd \<Rightarrow> (FT4222_STATUS \<times> 'd \<times> event list) option"
where
  "ProgramFlash drv g fileBuffer d = sector_loop drv g fileBuffer 0 0 [] d []"

subsection \<open>ValidateFlash\<close>

definition chunkCount :: "config \<Rightarrow> uint8 list \<Rightarrow> int" where
  "chunkCount g fileBuffer = 1 + c_div (int (length fileBuffer) - 1) (int (MAX_READ_SIZE g))"

definition bytesToRead :: "config \<Rightarrow> uint8 list \<Rightarrow> nat \<Rightarrow> int" where
  "bytesToRead g fileBuffer i =
     (if int i = chunkCount g fileBuffer - 1
      then int (length fileBuffer) - int i * int (MAX_READ_SIZE g)
      else int (MAX_READ_SIZE g))"

text \<open>\<^verbatim>\<open>for (j = 0; j < n; j++) readBuffer[pointer + j] = tempBuffer[j];\<close>\<close>

definition copy_chunk :: "uint8 list \<Rightarrow> nat \<Rightarrow> uint8 list \<Rightarrow> nat \<Rightarrow> uint8 list" where
  "copy_chunk readBuffer pointer tempBuffer n =
     fold (\<lambda>j rb. rb[pointer + j := tempBuffer ! j]) [0..<n] readBuffer"

function read_chunks ::
  "'d spi_driver \<Rightarrow> config \<Rightarrow> uint8 list \<Rightarrow> nat \<Rightarrow> nat \<Rightarrow> uint8 list \<Rightarrow> 'd
   \<Rightarrow> (FT4222_STATUS \<times> uint8 list) \<times> 'd \<times> event list"
where
  "read_chunks drv g fileBuffer i pointer readBuffer d =
     (if int i < chunkCount g fileBuffer then
        (let commandAndAddressBuffer = ReadCmd g # IntToByteVec (int pointer);
             n = nat (bytesToRead g fileBuffer i);
             tempBuffer = replicate n 0
         in case WriteSPI drv commandAndAddressBuffer (length commandAndAddressBuffer) False d of
              (status, d1, e1) \<Rightarrow>
                if status \<noteq> FT4222_OK then ((status, readBuffer), d1, e1)
                else
                  (case ReadSPI drv tempBuffer n True d1 of
                     ((status2, tempBuffer2), d2, e2) \<Rightarrow>
                       if status2 \<noteq> FT4222_OK then ((status2, readBuffer), d2, e1 @ e2)
                       else
                         (case read_chunks drv g fileBuffer (i + 1) (pointer + MAX_READ_SIZE g)
                                 (copy_chunk readBuffer pointer tempBuffer2 n) d2 of
                            (r, d3, e3) \<Rightarrow> (r, d3, e1 @ e2 @ e3))))
      else ((FT4222_OK, readBuffer), d, []))"
  by pat_completeness auto
termination
  by (relation "measure (\<lambda>(drv, g, fileBuffer, i, pointer, readBuffer, d).
        nat (chunkCount g fileBuffer) - i)") auto

declare read_chunks.simps [simp del]

definition ValidateFlash :: "'d spi_driver \<Rightarrow> config \<Rightarrow> uint8 list \<Rightarrow> 'd action" where
  "ValidateFlash drv g fileBuffer d =
     (case read_chunks drv g fileBuffer 0 0 (replicate (length fileBuffer) 0) d of
        ((status, readBuffer), d1, evs) \<Rightarrow>
          if status \<noteq> FT4222_OK then (status, d1, evs)
          else if list_ex (\<lambda>i. readBuffer ! i \<noteq> fileBuffer ! i) [0..<length fileBuffer]
          then (FT4222_CORRUPTED_UPLOAD, d1, evs)
          else (status, d1, evs))"

subsection \<open>An idealized flash behind an idealized transport\<close>

text \<open>
  The test double the properties about stored bytes are stated on. Every transfer
  succeeds and moves the count it was asked for. The chip collects the bytes of the
  open transaction in \<open>txn\<close> and runs the command when chip-select is released;
  it stores programmed bytes as they arrive, needs its write-enable latch \<open>wel\<close> for a
  program or an erase and clears it afterwards, and is never busy. A write that is
  asked for more bytes than its buffer holds sends what lies behind the buffer in
  memory: \<open>junk k\<close> is the byte at offset \<open>k\<close> from the start of the buffer.
\<close>

record flash =
  mem :: "nat \<Rightarrow> uint8"
  wel :: bool
  txn :: "uint8 list"

definition wire :: "(nat \<Rightarrow> uint8) \<Rightarrow> uint8 list \<Rightarrow> nat \<Rightarrow> uint8 list" where
  "wire junk buffer n = take n buffer @ map junk [length buffer..<n]"

definition addr24 :: "uint8 list \<Rightarrow> nat" where
  "addr24 bs = unat (bs ! 0) * 65536 + unat (bs ! 1) * 256 + unat (bs ! 2)"

definition program :: "(nat \<Rightarrow> uint8) \<Rightarrow> nat \<Rightarrow> uint8 list \<Rightarrow> nat \<Rightarrow> uint8" where
  "program m a bs = (\<lambda>x. if a \<le> x \<and> x < a + length bs then bs ! (x - a) else m x)"

definition erase :: "config \<Rightarrow> (nat \<Rightarrow> uint8) \<Rightarrow> nat \<Rightarrow> nat \<Rightarrow> uint8" where
  "erase g m a =
     (\<lambda>x. if a - a mod FLASH_SECTOR_SIZE g \<le> x \<and> x < a - a mod FLASH_SECTOR_SIZE g + FLASH_SECTOR_SIZE g
          then 0xFF else m x)"

definition flash_execute :: "config \<Rightarrow> uint8 list \<Rightarrow> flash \<Rightarrow> flash" where
  "flash_execute g t d =
     (if t = [WriteEnableCmd g] then d\<lparr>wel := True\<rparr>
      else if length t = 4 \<and> hd t = SectorEraseCmd g \<and> wel d
      then d\<lparr>mem := erase g (mem d) (addr24 (tl t)), wel := False\<rparr>
      else if 4 < length t \<and> hd t = PageProgramCmd g \<and> wel d
      then d\<lparr>mem := program (mem d) (addr24 (tl t)) (drop 4 t), wel := False\<rparr>
      else d)"

definition flash_write ::
  "config \<Rightarrow> (nat \<Rightarrow> uint8) \<Rightarrow> flash \<Rightarrow> uint8 list \<Rightarrow> uint16 \<Rightarrow> bool \<Rightarrow> (FT4222_STATUS \<times> uint16) \<times> flash"
where
  "flash_write g junk d buffer count isEndTransaction =
     (let t = txn d @ wire junk buffer (unat count)
      in ((FT4222_OK, count),
          if isEndTransaction then flash_execute g t (d\<lparr>txn := []\<rparr>) else d\<lparr>txn := t\<rparr>))"

definition flash_read ::
  "config \<Rightarrow> flash \<Rightarrow> uint16 \<Rightarrow> bool \<Rightarrow> (FT4222_STATUS \<times> uint16 \<times> uint8 list) \<times> flash"
where
  "flash_read g d count isEndTransaction =
     (let n = unat count;
          data = (if txn d = [ReadStatusRegisterCmd g] then replicate n 0x00
                  else if length (txn d) = 4 \<and> hd (txn d) = ReadCmd g
                  then map (mem d) [addr24 (tl (txn d))..<addr24 (tl (txn d)) + n]
                  else replicate n 0xFF)
      in ((FT4222_OK, count, data), if isEndTransaction then d\<lparr>txn := []\<rparr> else d))"

definition ideal_flash :: "config \<Rightarrow> (nat \<Rightarrow> uint8) \<Rightarrow> flash spi_driver" where
  "ideal_flash g junk = \<lparr>SingleWrite = flash_write g junk, SingleRead = flash_read g\<rparr>"

text \<open>
  \<open>glitchy drv\<close> is \<open>drv\<close> behind a line that damages the first byte of the next \<open>k\<close>
  reads of more than one byte (the reads of a sector; a status poll reads one byte).
\<close>

definition glitchy :: "'d spi_driver \<Rightarrow> (nat \<times> 'd) spi_driver" where
  "glitchy drv =
     \<lparr>SingleWrite = (\<lambda>(k, d) buffer count isEndTransaction.
          case SingleWrite drv d buffer count isEndTransaction of (r, d') \<Rightarrow> (r, (k, d'))),
      SingleRead = (\<lambda>(k, d) count isEndTransaction.
          case SingleRead drv d count isEndTransaction of
            ((status, n, data), d') \<Rightarrow>
              if 0 < k \<and> 1 < unat count then ((status, n, data[0 := data ! 0 + 1]), (k - 1, d'))
              else ((status, n, data), (k, d')))\<rparr>"

text \<open>A small geometry and the usual opcodes, for the concrete runs below.\<close>

definition g0 :: config where
  "g0 = \<lparr>FLASH_PAGE_SIZE = 2, FLASH_SECTOR_SIZE = 4, MAX_READ_SIZE = 3,
         MAX_SECTOR_PROGRAM_ATTEMPTS = 2, MAX_WAIT_TIME_MS = 2,
         ReadStatusRegisterCmd = 0x05, WriteEnableCmd = 0x06, PageProgramCmd = 0x02,
         SectorEraseCmd = 0x20, ReadCmd = 0x03\<rparr>"

definition erased :: flash where
  "erased = \<lparr>mem = (\<lambda>x. 0xFF), wel = False, txn = []\<rparr>"

text \<open>
  \<open>scripted\<close> is a transport that answers from a script: each call takes the next
  reply (its status, and for a read its bytes) and reports the full count; it fails
  once the script is used up.
\<close>

definition scripted :: "(FT4222_STATUS \<times> uint8 list) list spi_driver" where
  "scripted =
     \<lparr>SingleWrite = (\<lambda>rs buffer count isEndTransaction.
          case rs of [] \<Rightarrow> ((FT4222_VENDOR_ERROR 0, 0), [])
                   | r # rs' \<Rightarrow> ((fst r, count), rs')),
      SingleRead = (\<lambda>rs count isEndTransaction.
          case rs of [] \<Rightarrow> ((FT4222_VENDOR_ERROR 0, 0, []), [])
                   | r # rs' \<Rightarrow> ((fst r, count, snd r), rs'))\<rparr>"

subsection \<open>Vocabulary for the transfers of a run\<close>

fun ev_status :: "event \<Rightarrow> FT4222_STATUS" where
  "ev_status (SpiWrite buffer n e s) = s"
| "ev_status (SpiRead n e s buffer) = s"
| "ev_status (Sleep ms) = FT4222_OK"

fun is_Sleep :: "event \<Rightarrow> bool" where
  "is_Sleep (Sleep ms) = True"
| "is_Sleep (SpiWrite buffer n e s) = False"
| "is_Sleep (SpiRead n e s buffer) = False"

text \<open>The write that opens a status poll: the one opcode byte, chip-select held.\<close>

fun is_poll_write :: "config \<Rightarrow> event \<Rightarrow> bool" where
  "is_poll_write g (SpiWrite buffer n e s) = (buffer = [ReadStatusRegisterCmd g] \<and> n = 1 \<and> \<not> e)"
| "is_poll_write g (SpiRead n e s buffer) = False"
| "is_poll_write g (Sleep ms) = False"

definition all_ok :: "event list \<Rightarrow> bool" where
  "all_ok evs = list_all (\<lambda>e. ev_status e = FT4222_OK) evs"

text \<open>
  Every sleep that is followed by anything is followed by the next status poll: the
  poll loop was not left there.
\<close>

fun sleeps_resume :: "config \<Rightarrow> event list \<Rightarrow> bool" where
  "sleeps_resume g [] = True"
| "sleeps_resume g [e] = True"
| "sleeps_resume g (e # e' # es) =
     ((if is_Sleep e then is_poll_write g e' else True) \<and> sleeps_resume g (e' # es))"

text \<open>Every run of an operation opens with a write: a read answers a command.\<close>

fun is_write :: "event \<Rightarrow> bool" where
  "is_write (SpiWrite buffer n e s) = True"
| "is_write (SpiRead n e s buffer) = False"
| "is_write (Sleep ms) = False"

definition starts_write :: "event list \<Rightarrow> bool" where
  "starts_write evs = (case evs of [] \<Rightarrow> True | e # es \<Rightarrow> is_write e)"

text \<open>
  The sleeps of every poll loop are counted against \<open>MAX_WAIT_TIME_MS\<close>. \<open>c\<close> is the
  number of sleeps of the poll loop under way and \<open>after_sleep\<close> tells that the event
  before was a sleep: the write after a sleep goes on with that loop, any other write
  starts the count afresh. A sleep that is followed by anything is not yet the
  \<open>MAX_WAIT_TIME_MS\<close>-th of its loop, and a sleep that ends the run is exactly the
  \<open>MAX_WAIT_TIME_MS\<close>-th: a loop never polls more often than its budget, and once the
  budget is used up nothing follows.
\<close>

fun within_budget :: "config \<Rightarrow> nat \<Rightarrow> bool \<Rightarrow> event list \<Rightarrow> bool" where
  "within_budget g c after_sleep [] = True"
| "within_budget g c after_sleep (Sleep ms # es) =
     ((if es = [] then Suc c = MAX_WAIT_TIME_MS g else Suc c < MAX_WAIT_TIME_MS g)
      \<and> within_budget g (Suc c) True es)"
| "within_budget g c after_sleep (SpiWrite buffer n e s # es) =
     within_budget g (if after_sleep then c else 0) False es"
| "within_budget g c after_sleep (SpiRead n e s buffer # es) = within_budget g c False es"

text \<open>
  A run in which every transfer succeeded and no poll loop ran out of time: it does
  not end on a sleep, and each of its poll loops slept less than \<open>MAX_WAIT_TIME_MS\<close>
  times.
\<close>

definition clean :: "config \<Rightarrow> event list \<Rightarrow> bool" where
  "clean g evs =
     (all_ok evs \<and> sleeps_resume g evs \<and> starts_write evs \<and> within_budget g 0 False evs
      \<and> (evs = [] \<or> \<not> is_Sleep (last evs)))"

text \<open>
  The statuses that a transfer or a poll loop hands up, as opposed to the verdict on
  the data (\<open>FT4222_CORRUPTED_UPLOAD\<close>) and to the marker of the embedding.
\<close>

definition transport_error :: "FT4222_STATUS \<Rightarrow> bool" where
  "transport_error s =
     (s \<noteq> FT4222_OK \<and> s \<noteq> FT4222_CORRUPTED_UPLOAD \<and> s \<noteq> UNDEFINED_BEHAVIOUR)"

text \<open>
  A run that stops at the first failure. Every transfer before the last one succeeded,
  so nothing follows a failed transfer; a failed last transfer gives the status that
  is returned. Every sleep but the last event is followed by the next status poll, no
  poll loop sleeps more than \<open>MAX_WAIT_TIME_MS\<close> times, and the \<open>MAX_WAIT_TIME_MS\<close>-th
  sleep of a loop is the last event of the run, whose status is then the timeout. A
  run that returns \<open>FT4222_OK\<close> is clean. Conversely an error of the transport or a
  timeout is returned only by a run that ends on the failed transfer with that status
  or on the sleep that used up the budget.
\<close>

definition fail_stop :: "config \<Rightarrow> event list \<Rightarrow> FT4222_STATUS \<Rightarrow> bool" where
  "fail_stop g evs s =
     (all_ok (butlast evs) \<and> sleeps_resume g evs \<and> starts_write evs
      \<and> within_budget g 0 False evs
      \<and> (if s = FT4222_OK then clean g evs else True)
      \<and> (if evs \<noteq> [] \<and> ev_status (last evs) \<noteq> FT4222_OK then s = ev_status (last evs) else True)
      \<and> (if evs \<noteq> [] \<and> is_Sleep (last evs) then s = FT4222_TIME_OUT_ERROR else True)
      \<and> (if transport_error s
          then evs \<noteq> [] \<and> (is_Sleep (last evs) \<or> ev_status (last evs) = s) else True))"

text \<open>
  The transfers of the poll loop entered at round \<open>i\<close>, with the status it returns:
  \<open>i\<close> sleeps of the budget are spent already.
\<close>

definition poll_trace :: "config \<Rightarrow> nat \<Rightarrow> event list \<Rightarrow> FT4222_STATUS \<Rightarrow> bool" where
  "poll_trace g i evs s =
     (all_ok (butlast evs) \<and> sleeps_resume g evs \<and> within_budget g i (0 < i) evs
      \<and> (evs = [] \<longleftrightarrow> \<not> i < MAX_WAIT_TIME_MS g)
      \<and> (evs = [] \<longrightarrow> s = FT4222_TIME_OUT_ERROR)
      \<and> (evs \<noteq> [] \<longrightarrow> is_poll_write g (hd evs))
      \<and> (evs \<noteq> [] \<and> is_Sleep (last evs) \<longrightarrow> s = FT4222_TIME_OUT_ERROR)
      \<and> (evs \<noteq> [] \<and> ev_status (last evs) \<noteq> FT4222_OK \<longrightarrow> s = ev_status (last evs))
      \<and> (evs \<noteq> [] \<and> \<not> is_Sleep (last evs) \<and> ev_status (last evs) = FT4222_OK
           \<longrightarrow> s = FT4222_OK \<and> all_ok evs))"

text \<open>
  One status poll that read the byte \<open>b\<close>, and a sequence of polls with the sleep
  after each busy one.
\<close>

definition busy :: "uint8 \<Rightarrow> bool" where
  "busy b = (b AND 0x01 \<noteq> 0x00)"

definition poll :: "config \<Rightarrow> uint8 \<Rightarrow> event list" where
  "poll g b =
     [SpiWrite [ReadStatusRegisterCmd g] 1 False FT4222_OK, SpiRead 1 True FT4222_OK [b]]"

definition polls :: "config \<Rightarrow> uint8 list \<Rightarrow> event list" where
  "polls g bs = concat (map (\<lambda>b. poll g b @ (if busy b then [Sleep 1] else [])) bs)"

text \<open>The polls of a wait that ended ready: some busy bytes, then a ready one.\<close>

definition ready_run :: "uint8 list \<Rightarrow> bool" where
  "ready_run bs = (bs \<noteq> [] \<and> \<not> busy (last bs) \<and> list_all busy (butlast bs))"

text \<open>
  The transfers of one page program that went through: write enable, the opcode with
  the three address bytes of \<open>pageIndex * FLASH_PAGE_SIZE\<close> with chip-select held, the
  payload, and the polls of the wait that followed.
\<close>

definition page_program :: "config \<Rightarrow> nat \<Rightarrow> uint8 list \<Rightarrow> uint8 list \<Rightarrow> event list" where
  "page_program g pageIndex chunk bs =
     [SpiWrite [WriteEnableCmd g] 1 True FT4222_OK,
      SpiWrite (PageProgramCmd g # IntToByteVec (int pageIndex * int (FLASH_PAGE_SIZE g))) 4 False
        FT4222_OK,
      SpiWrite chunk (FLASH_PAGE_SIZE g) True FT4222_OK]
     @ polls g bs"

text \<open>The chunk of a sector buffer that page \<open>k\<close> of the sector takes.\<close>

definition chunk :: "config \<Rightarrow> uint8 list \<Rightarrow> nat \<Rightarrow> uint8 list" where
  "chunk g sb k = take (FLASH_PAGE_SIZE g) (drop (k * FLASH_PAGE_SIZE g) sb)"

text \<open>
  The geometry the sector programmer relies on: pages are not empty and a sector is a
  whole number of pages.
\<close>

definition pages_fit :: "config \<Rightarrow> bool" where
  "pages_fit g = (0 < FLASH_PAGE_SIZE g \<and> FLASH_PAGE_SIZE g dvd FLASH_SECTOR_SIZE g)"

text \<open>The number of chunks of at most \<open>m\<close> bytes that \<open>n\<close> bytes fall into.\<close>

definition ceil_div :: "nat \<Rightarrow> nat \<Rightarrow> nat" where
  "ceil_div n m = (n + m - 1) div m"

text \<open>
  The transfers of one chunk read of a validation that went through: the \<open>Read\<close>
  opcode with the three bytes of the running address, chip-select held, then the
  chunk \<open>c\<close> read with chip-select released.
\<close>

definition chunk_read :: "config \<Rightarrow> nat \<Rightarrow> uint8 list \<Rightarrow> event list" where
  "chunk_read g address c =
     [SpiWrite (ReadCmd g # IntToByteVec (int address)) 4 False FT4222_OK,
      SpiRead (length c) True FT4222_OK c]"

text \<open>
  The transfers of one read-back of sector \<open>i\<close> that went through, and of one erase of
  it with the polls of the wait that followed.
\<close>

definition sector_read :: "config \<Rightarrow> nat \<Rightarrow> uint8 list \<Rightarrow> event list" where
  "sector_read g i bytes =
     [SpiWrite (ReadCmd g # IntToByteVec (int i * int (FLASH_SECTOR_SIZE g))) 4 False FT4222_OK,
      SpiRead (FLASH_SECTOR_SIZE g) True FT4222_OK bytes]"

definition sector_erase :: "config \<Rightarrow> nat \<Rightarrow> uint8 list \<Rightarrow> event list" where
  "sector_erase g i bs =
     [SpiWrite [WriteEnableCmd g] 1 True FT4222_OK,
      SpiWrite (SectorEraseCmd g # IntToByteVec (int i * int (FLASH_SECTOR_SIZE g))) 4 True
        FT4222_OK]
     @ polls g bs"

section \<open>Properties\<close>

subsection \<open>Address bytes\<close>

lemma low_byte_mask: "(x :: int) AND 0xFF = x mod 256"
proof -
  have m: "(0xFF :: int) = mask 8"
    by (simp add: mask_eq_exp_minus_1)
  show ?thesis
    unfolding m by (simp add: take_bit_eq_mod flip: take_bit_eq_mask)
qed

lemma mid_byte_mask: "drop_bit 8 ((x :: int) AND 0xFF00) = x div 256 mod 256"
proof -
  have m: "(0xFF00 :: int) = push_bit 8 (mask 8)"
    by (simp add: mask_eq_exp_minus_1 push_bit_eq_mult)
  have "drop_bit 8 (x AND push_bit 8 (mask 8)) = drop_bit 8 x AND mask 8"
    by (rule bit_eqI) (auto simp: bit_simps)
  then show ?thesis
    unfolding m by (simp add: drop_bit_eq_div take_bit_eq_mod flip: take_bit_eq_mask)
qed

lemma high_byte_mask: "drop_bit 16 ((x :: int) AND 0xFF0000) = x div 65536 mod 256"
proof -
  have m: "(0xFF0000 :: int) = push_bit 16 (mask 8)"
    by (simp add: mask_eq_exp_minus_1 push_bit_eq_mult)
  have "drop_bit 16 (x AND push_bit 16 (mask 8)) = drop_bit 16 x AND mask 8"
    by (rule bit_eqI) (auto simp: bit_simps)
  then show ?thesis
    unfolding m by (simp add: drop_bit_eq_div take_bit_eq_mod flip: take_bit_eq_mask)
qed

text \<open>The three address bytes by division, which is also how they are evaluated.\<close>

lemma IntToByteVec_div_mod [code]:
  "IntToByteVec x =
     [word_of_int (x div 65536 mod 256), word_of_int (x div 256 mod 256), word_of_int (x mod 256)]"
  by (simp only: IntToByteVec_def low_byte_mask mid_byte_mask high_byte_mask)

subsection \<open>The 16-bit transfer count\<close>

lemma unat_uint16_lt: "unat (w :: uint16) < 65536"
  using unsigned_less [of w, where ?'a = nat] by simp

lemma of_nat_mod_uint16: "(of_nat (n mod 65536) :: uint16) = of_nat n"
  by (simp add: word_of_nat_eq_iff take_bit_eq_mod)

lemma WriteSPI_truncated:
  assumes "65535 < n"
  shows "fst (WriteSPI drv buffer n e d) =
           (case SingleWrite drv d buffer (of_nat (n mod 65536)) e of
              ((status, transferred), d') \<Rightarrow>
                if status \<noteq> FT4222_OK then status else FT4222_INORRECT_TRANSFER_SIZE)"
proof -
  obtain status transferred d' where
    r: "SingleWrite drv d buffer (of_nat n) e = ((status, transferred), d')"
    by (metis surj_pair)
  have "unat transferred \<noteq> n"
    using assms unat_uint16_lt [of transferred] by simp
  with r show ?thesis
    by (simp add: WriteSPI_def of_nat_mod_uint16)
qed

lemma ReadSPI_truncated:
  assumes "65535 < n"
  shows "fst (fst (ReadSPI drv buffer n e d)) =
           (case SingleRead drv d (of_nat (n mod 65536)) e of
              ((status, bytesRead, data), d') \<Rightarrow>
                if status \<noteq> FT4222_OK then status else FT4222_INORRECT_TRANSFER_SIZE)"
proof -
  obtain status bytesRead data d' where
    r: "SingleRead drv d (of_nat n) e = ((status, bytesRead, data), d')"
    by (metis surj_pair)
  have "unat bytesRead \<noteq> n"
    using assms unat_uint16_lt [of bytesRead] by simp
  with r show ?thesis
    by (simp add: ReadSPI_def of_nat_mod_uint16 Let_def)
qed

text \<open>
  Claim C10. \<^verbatim>\<open>WriteSPI\<close> and \<^verbatim>\<open>ReadSPI\<close> hand the driver the requested count cut
  to 16 bits (\<open>n mod 65536\<close>) and then compare the 16-bit count it reports with the
  uncut request. For a request of more than 65535 bytes the call therefore never
  returns \<open>FT4222_OK\<close>: it returns the driver's error, and
  \<open>FT4222_INORRECT_TRANSFER_SIZE\<close> whenever the driver reports success, however
  many bytes it moved.
\<close>

theorem transfer_count_truncated:
  assumes "65535 < n"
  shows "fst (WriteSPI drv wb n e d) =
           (case SingleWrite drv d wb (of_nat (n mod 65536)) e of
              ((status, transferred), d') \<Rightarrow>
                if status \<noteq> FT4222_OK then status else FT4222_INORRECT_TRANSFER_SIZE)
       \<and> fst (fst (ReadSPI drv rb n e d)) =
           (case SingleRead drv d (of_nat (n mod 65536)) e of
              ((status, bytesRead, data), d') \<Rightarrow>
                if status \<noteq> FT4222_OK then status else FT4222_INORRECT_TRANSFER_SIZE)
       \<and> fst (WriteSPI drv wb n e d) \<noteq> FT4222_OK
       \<and> fst (fst (ReadSPI drv rb n e d)) \<noteq> FT4222_OK"
  using WriteSPI_truncated [OF assms, of drv wb e d] ReadSPI_truncated [OF assms, of drv rb e d]
  by (auto split: prod.splits if_splits)

text \<open>
  The idealized flash moves every byte it is asked for, and a request of 65536 bytes
  still fails.
\<close>

theorem transfer_count_truncated_witness:
  "(65535 :: nat) < 65536
   \<and> fst (WriteSPI (ideal_flash g0 (\<lambda>k. 0)) [] 65536 True erased) = FT4222_INORRECT_TRANSFER_SIZE
   \<and> fst (fst (ReadSPI (ideal_flash g0 (\<lambda>k. 0)) [] 65536 True erased)) = FT4222_INORRECT_TRANSFER_SIZE"
  using transfer_count_truncated [of 65536 "ideal_flash g0 (\<lambda>k. 0)" "[]" True erased "[]"]
  by (simp add: ideal_flash_def flash_write_def flash_read_def Let_def)

subsection \<open>Runs that stop at the first failure\<close>

lemma WriteSPI_events: "snd (snd (WriteSPI drv b n e d)) = [SpiWrite b n e (fst (WriteSPI drv b n e d))]"
  by (simp add: WriteSPI_def Let_def split: prod.splits)

lemma ReadSPI_events:
  "snd (snd (ReadSPI drv rb n e d)) =
     [SpiRead n e (fst (fst (ReadSPI drv rb n e d))) (snd (fst (ReadSPI drv rb n e d)))]"
  by (simp add: ReadSPI_def Let_def split: prod.splits)

lemma length_stored: "length (stored data buffer) = length buffer"
  by (simp add: stored_def)

lemma ReadSPI_length: "length (snd (fst (ReadSPI drv rb n e d))) = length rb"
  by (simp add: ReadSPI_def Let_def length_stored split: prod.splits)












lemma transport_error_simps [simp]:
  "\<not> transport_error FT4222_OK"
  "\<not> transport_error FT4222_CORRUPTED_UPLOAD"
  "\<not> transport_error UNDEFINED_BEHAVIOUR"
  by (simp_all add: transport_error_def)








subsection \<open>The poll loop\<close>

lemma poll_trace_round:
  assumes "i < MAX_WAIT_TIME_MS g" and "poll_trace g (Suc i) evs s"
  shows "poll_trace g i
           (SpiWrite [ReadStatusRegisterCmd g] 1 False FT4222_OK # SpiRead n True FT4222_OK b
              # Sleep ms # evs) s"
proof (cases evs)
  case Nil
  with assms show ?thesis
    by (auto simp: poll_trace_def all_ok_def)
next
  case (Cons e es)
  with assms show ?thesis
    by (auto simp: poll_trace_def all_ok_def split: if_splits)
qed

lemma poll_trace_wait_loop:
  "poll_trace g i (snd (snd (wait_loop drv g i rb d))) (fst (wait_loop drv g i rb d))"
proof (induction drv g i rb d rule: wait_loop.induct)
  case (1 drv g i rb d)
  show ?case
  proof (cases "i < MAX_WAIT_TIME_MS g")
    case False
    then show ?thesis
      by (simp add: wait_loop.simps [of drv g i] poll_trace_def all_ok_def)
  next
    case True
    obtain s1 d1 e1 where w: "WriteSPI drv [ReadStatusRegisterCmd g] 1 False d = (s1, d1, e1)"
      by (rule prod_cases3)
    have e1: "e1 = [SpiWrite [ReadStatusRegisterCmd g] 1 False s1]"
      using WriteSPI_events [of drv "[ReadStatusRegisterCmd g]" 1 False d] w by simp
    show ?thesis
    proof (cases "s1 = FT4222_OK")
      case False
      with True w e1 show ?thesis
        by (simp add: wait_loop.simps [of drv g i] poll_trace_def all_ok_def)
    next
      case s1: True
      obtain s2 rb2 d2 e2 where r: "ReadSPI drv rb (length rb) True d1 = ((s2, rb2), d2, e2)"
        by (cases "ReadSPI drv rb (length rb) True d1") auto
      have e2: "e2 = [SpiRead (length rb) True s2 rb2]"
        using ReadSPI_events [of drv rb "length rb" True d1] r by simp
      show ?thesis
      proof (cases "s2 = FT4222_OK")
        case False
        with True w e1 s1 r e2 show ?thesis
          by (simp add: wait_loop.simps [of drv g i] poll_trace_def all_ok_def)
      next
        case s2: True
        show ?thesis
        proof (cases "(rb2 ! 0) AND 0x01 = 0x00")
          case ready: True
          with True w e1 s1 r e2 s2 show ?thesis
            by (simp add: wait_loop.simps [of drv g i] poll_trace_def all_ok_def)
        next
          case busy: False
          obtain s3 d3 e3 where l: "wait_loop drv g (i + 1) rb2 d2 = (s3, d3, e3)"
            by (rule prod_cases3)
          have ih: "poll_trace g (Suc i) e3 s3"
            using "1.IH" [OF True w [symmetric] refl _ r [symmetric] refl refl _ busy] s1 s2 l
            by simp
          have unfold: "wait_loop drv g i rb d = (s3, d3, e1 @ e2 @ [Sleep 1] @ e3)"
            using True w s1 r s2 busy l by (simp add: wait_loop.simps [of drv g i])
          show ?thesis
            using poll_trace_round [OF True ih] unfold e1 e2 s1 s2 by simp
        qed
      qed
    qed
  qed
qed



lemma polls_Nil: "polls g [] = []"
  by (simp add: polls_def)

lemma polls_Cons: "polls g (b # bs) = poll g b @ (if busy b then [Sleep 1] else []) @ polls g bs"
  by (simp add: polls_def)

lemma length_one: "length xs = Suc 0 \<Longrightarrow> xs = [xs ! 0]"
  by (cases xs) auto

lemma wait_loop_polls:
  assumes "length rb = 1" and "all_ok (snd (snd (wait_loop drv g i rb d)))"
  shows "\<exists>bs. snd (snd (wait_loop drv g i rb d)) = polls g bs
           \<and> length bs \<le> MAX_WAIT_TIME_MS g - i
           \<and> list_all busy (butlast bs)
           \<and> (if fst (wait_loop drv g i rb d) = FT4222_OK then bs \<noteq> [] \<and> \<not> busy (last bs)
               else fst (wait_loop drv g i rb d) = FT4222_TIME_OUT_ERROR
                    \<and> length bs = MAX_WAIT_TIME_MS g - i \<and> list_all busy bs)"
  using assms
proof (induction drv g i rb d rule: wait_loop.induct)
  case (1 drv g i rb d)
  show ?case
  proof (cases "i < MAX_WAIT_TIME_MS g")
    case False
    then show ?thesis
      by (intro exI [of _ "[]"]) (simp add: wait_loop.simps [of drv g i] polls_Nil)
  next
    case True
    obtain s1 d1 e1 where w: "WriteSPI drv [ReadStatusRegisterCmd g] 1 False d = (s1, d1, e1)"
      by (rule prod_cases3)
    have e1: "e1 = [SpiWrite [ReadStatusRegisterCmd g] 1 False s1]"
      using WriteSPI_events [of drv "[ReadStatusRegisterCmd g]" 1 False d] w by simp
    have s1: "s1 = FT4222_OK"
      using "1.prems"(2) True w e1
      by (auto simp: wait_loop.simps [of drv g i] all_ok_def split: if_splits prod.splits)
    obtain s2 rb2 d2 e2 where r: "ReadSPI drv rb (length rb) True d1 = ((s2, rb2), d2, e2)"
      by (cases "ReadSPI drv rb (length rb) True d1") auto
    have e2: "e2 = [SpiRead (length rb) True s2 rb2]"
      using ReadSPI_events [of drv rb "length rb" True d1] r by simp
    have s2: "s2 = FT4222_OK"
      using "1.prems"(2) True w e1 s1 r e2
      by (auto simp: wait_loop.simps [of drv g i] all_ok_def split: if_splits prod.splits)
    have len2: "length rb2 = 1"
      using ReadSPI_length [of drv rb "length rb" True d1] r "1.prems"(1) by simp
    then have rb2: "rb2 = [rb2 ! 0]"
      by (simp add: length_one)
    have p: "e1 @ e2 = poll g (rb2 ! 0)"
      using e1 e2 s1 s2 rb2 "1.prems"(1) by (simp add: poll_def)
    show ?thesis
    proof (cases "(rb2 ! 0) AND 0x01 = 0x00")
      case ready: True
      have "wait_loop drv g i rb d = (FT4222_OK, d2, e1 @ e2)"
        using True w s1 r s2 ready by (simp add: wait_loop.simps [of drv g i])
      with p ready True show ?thesis
        by (intro exI [of _ "[rb2 ! 0]"]) (simp add: polls_Cons polls_Nil busy_def)
    next
      case busy: False
      obtain s3 d3 e3 where l: "wait_loop drv g (i + 1) rb2 d2 = (s3, d3, e3)"
        by (rule prod_cases3)
      have unfold: "wait_loop drv g i rb d = (s3, d3, e1 @ e2 @ [Sleep 1] @ e3)"
        using True w s1 r s2 busy l by (simp add: wait_loop.simps [of drv g i])
      have ok3: "all_ok e3"
        using "1.prems"(2) unfold by (simp add: all_ok_def)
      have "\<exists>bs. snd (snd (wait_loop drv g (i + 1) rb2 d2)) = polls g bs
           \<and> length bs \<le> MAX_WAIT_TIME_MS g - (i + 1)
           \<and> list_all busy (butlast bs)
           \<and> (if fst (wait_loop drv g (i + 1) rb2 d2) = FT4222_OK then bs \<noteq> [] \<and> \<not> busy (last bs)
               else fst (wait_loop drv g (i + 1) rb2 d2) = FT4222_TIME_OUT_ERROR
                    \<and> length bs = MAX_WAIT_TIME_MS g - (i + 1) \<and> list_all busy bs)"
      proof (rule "1.IH" [OF True w [symmetric] refl _ r [symmetric] refl refl _ busy len2])
        show "\<not> s1 \<noteq> FT4222_OK" using s1 by simp
        show "\<not> s2 \<noteq> FT4222_OK" using s2 by simp
        show "all_ok (snd (snd (wait_loop drv g (i + 1) rb2 d2)))" using ok3 l by simp
      qed
      then obtain bs where bs: "e3 = polls g bs" "length bs \<le> MAX_WAIT_TIME_MS g - (i + 1)"
          "list_all busy (butlast bs)"
          "if s3 = FT4222_OK then bs \<noteq> [] \<and> \<not> busy (last bs)
           else s3 = FT4222_TIME_OUT_ERROR \<and> length bs = MAX_WAIT_TIME_MS g - (i + 1)
                \<and> list_all busy bs"
        unfolding l fst_conv snd_conv by blast
      have b: "busy (rb2 ! 0)"
        using busy by (simp add: busy_def)
      have "e1 @ e2 @ [Sleep 1] @ e3 = polls g ((rb2 ! 0) # bs)"
        using p bs(1) b by (simp add: polls_Cons)
      moreover have "length ((rb2 ! 0) # bs) \<le> MAX_WAIT_TIME_MS g - i"
        using bs(2) True by simp
      moreover have "list_all busy (butlast ((rb2 ! 0) # bs))"
        using bs(3) b by simp
      moreover have "if s3 = FT4222_OK then (rb2 ! 0) # bs \<noteq> [] \<and> \<not> busy (last ((rb2 ! 0) # bs))
           else s3 = FT4222_TIME_OUT_ERROR \<and> length ((rb2 ! 0) # bs) = MAX_WAIT_TIME_MS g - i
                \<and> list_all busy ((rb2 ! 0) # bs)"
        using bs(2,4) b True by (auto split: if_splits)
      ultimately show ?thesis
        unfolding unfold fst_conv snd_conv by blast
    qed
  qed
qed

text \<open>
  Claim C7. Take any transport and a call of \<^verbatim>\<open>WaitForFlashReady\<close> whose transfers all
  succeed. Its transfers are a sequence of status polls, each the \<open>ReadStatus\<close> opcode
  written with chip-select held and then one byte read with chip-select released,
  with a sleep of one millisecond after every busy poll. There are at most
  \<open>MAX_WAIT_TIME_MS\<close> polls and all but the last read a busy byte. The call returns
  \<open>FT4222_OK\<close> exactly when one of these polls reads a byte with bit 0 clear, and then
  that poll is the last one; otherwise all \<open>MAX_WAIT_TIME_MS\<close> polls read a busy
  byte and the call returns \<open>FT4222_TIME_OUT_ERROR\<close>.
\<close>

theorem WaitForFlashReady_polls:
  assumes "all_ok (snd (snd (WaitForFlashReady drv g d)))"
  shows "\<exists>bs. snd (snd (WaitForFlashReady drv g d)) = polls g bs
           \<and> length bs \<le> MAX_WAIT_TIME_MS g
           \<and> list_all busy (butlast bs)
           \<and> (fst (WaitForFlashReady drv g d) = FT4222_OK) = list_ex (\<lambda>b. \<not> busy b) bs
           \<and> (if fst (WaitForFlashReady drv g d) = FT4222_OK then bs \<noteq> [] \<and> \<not> busy (last bs)
               else fst (WaitForFlashReady drv g d) = FT4222_TIME_OUT_ERROR
                    \<and> length bs = MAX_WAIT_TIME_MS g \<and> list_all busy bs)"
proof -
  let ?r = "wait_loop drv g 0 (replicate 1 0) d"
  have "\<exists>bs. snd (snd ?r) = polls g bs
           \<and> length bs \<le> MAX_WAIT_TIME_MS g - 0
           \<and> list_all busy (butlast bs)
           \<and> (if fst ?r = FT4222_OK then bs \<noteq> [] \<and> \<not> busy (last bs)
               else fst ?r = FT4222_TIME_OUT_ERROR
                    \<and> length bs = MAX_WAIT_TIME_MS g - 0 \<and> list_all busy bs)"
    using assms by (intro wait_loop_polls) (simp_all add: WaitForFlashReady_def)
  then obtain bs where bs: "snd (snd ?r) = polls g bs" "length bs \<le> MAX_WAIT_TIME_MS g"
      "list_all busy (butlast bs)"
      "if fst ?r = FT4222_OK then bs \<noteq> [] \<and> \<not> busy (last bs)
       else fst ?r = FT4222_TIME_OUT_ERROR \<and> length bs = MAX_WAIT_TIME_MS g \<and> list_all busy bs"
    unfolding diff_zero by blast
  have "(fst ?r = FT4222_OK) = list_ex (\<lambda>b. \<not> busy b) bs"
  proof (cases "fst ?r = FT4222_OK")
    case True
    with bs(4) have "bs \<noteq> []" "\<not> busy (last bs)" by simp_all
    then have "list_ex (\<lambda>b. \<not> busy b) bs"
      unfolding list_ex_iff using last_in_set by blast
    with True show ?thesis by simp
  next
    case False
    with bs(4) have "list_all busy bs" by simp
    then have "\<not> list_ex (\<lambda>b. \<not> busy b) bs"
      by (simp add: list_ex_iff list_all_iff)
    with False show ?thesis by simp
  qed
  with bs show ?thesis
    unfolding WaitForFlashReady_def by blast
qed

lemmas poll_run_defs = WaitForFlashReady_def wait_loop.simps WriteSPI_def ReadSPI_def
  scripted_def g0_def stored_def Let_def polls_def poll_def busy_def all_ok_def

text \<open>
  With a budget of two polls: a flash that is busy once and then ready is accepted at
  the second poll.
\<close>

theorem WaitForFlashReady_polls_witness:
  "WaitForFlashReady scripted g0
       [(FT4222_OK, []), (FT4222_OK, [0x01]), (FT4222_OK, []), (FT4222_OK, [0x00])]
     = (FT4222_OK, [], polls g0 [0x01, 0x00])
   \<and> all_ok (polls g0 [0x01, 0x00])
   \<and> (\<exists>bs. polls g0 [0x01, 0x00] = polls g0 bs
           \<and> length bs \<le> MAX_WAIT_TIME_MS g0
           \<and> list_all busy (butlast bs)
           \<and> list_ex (\<lambda>b. \<not> busy b) bs
           \<and> bs \<noteq> [] \<and> \<not> busy (last bs))"
proof -
  let ?script = "[(FT4222_OK, []), (FT4222_OK, [0x01]), (FT4222_OK, []), (FT4222_OK, [0x00 :: uint8])]"
  have run: "WaitForFlashReady scripted g0 ?script = (FT4222_OK, [], polls g0 [0x01, 0x00])"
    by (simp add: poll_run_defs)
  have ok: "all_ok (polls g0 [0x01, 0x00])"
    by (simp add: poll_run_defs)
  show ?thesis
    using WaitForFlashReady_polls [of scripted g0 ?script] run ok by simp
qed

subsection \<open>Every operation stops at the first failure\<close>
















lemmas trace_defs = fail_stop_def clean_def all_ok_def starts_write_def transport_error_def
  page_program_def polls_def poll_def busy_def g0_def

text \<open>
  What the predicate tells apart, with a budget of two polls. A page program whose
  wait read two busy bytes has timed out: it is not a run that returns \<open>FT4222_OK\<close>,
  nor can polls follow it, nor a second page program. A transfer after a failed one,
  or a failed one repeated, is not a run of the predicate either, whatever status
  comes back; and a timeout is not the status of a run that ended ready.
\<close>

lemma fail_stop_tells_timeout:
  "\<not> fail_stop g0 (page_program g0 0 [1, 2] [0x01, 0x01]) FT4222_OK"
  "\<not> fail_stop g0 (page_program g0 0 [1, 2] [0x01, 0x01] @ polls g0 [0x01, 0x00]) s"
  "\<not> fail_stop g0 (page_program g0 0 [1, 2] [0x01, 0x01] @ page_program g0 1 [3, 4] [0x00]) s"
  "\<not> fail_stop g0 (page_program g0 0 [1, 2] [0x01, 0x00]) FT4222_TIME_OUT_ERROR"
  by (simp_all add: trace_defs)

lemma fail_stop_tells_retry:
  "\<not> fail_stop g0
       [SpiWrite [0x06] 1 True (FT4222_VENDOR_ERROR 7), SpiWrite [0x06] 1 True FT4222_OK] s"
  "\<not> fail_stop g0 [SpiWrite [0x06] 1 True (FT4222_VENDOR_ERROR 7)] FT4222_OK"
  "\<not> fail_stop g0 [SpiWrite [0x06] 1 True FT4222_OK] (FT4222_VENDOR_ERROR 7)"
  by (simp_all add: trace_defs)

subsection \<open>The transfers of a page program and of a sector program\<close>

lemma and_then_OK:
  assumes "fst (and_then f h d) = FT4222_OK"
  shows "fst (f d) = FT4222_OK"
    and "fst (h (fst (snd (f d)))) = FT4222_OK"
    and "snd (snd (and_then f h d)) = snd (snd (f d)) @ snd (snd (h (fst (snd (f d)))))"
    and "fst (snd (and_then f h d)) = fst (snd (h (fst (snd (f d)))))"
  using assms by (auto simp: and_then_def split: prod.splits if_splits)

lemma WriteSPI_OK_events:
  "fst (WriteSPI drv b n e d) = FT4222_OK \<Longrightarrow> snd (snd (WriteSPI drv b n e d)) = [SpiWrite b n e FT4222_OK]"
  using WriteSPI_events [of drv b n e d] by simp

lemma length_IntToByteVec: "length (IntToByteVec x) = 3"
  by (simp add: IntToByteVec_def)

lemma WaitForFlashReady_OK:
  assumes "fst (WaitForFlashReady drv g d) = FT4222_OK"
  shows "\<exists>bs. ready_run bs \<and> length bs \<le> MAX_WAIT_TIME_MS g
            \<and> snd (snd (WaitForFlashReady drv g d)) = polls g bs"
proof -
  let ?r = "wait_loop drv g 0 (replicate 1 0) d"
  have ok: "fst ?r = FT4222_OK"
    using assms by (simp add: WaitForFlashReady_def)
  have "all_ok (snd (snd ?r))"
    using poll_trace_wait_loop [of g 0 drv "replicate 1 0" d] ok
    by (auto simp: poll_trace_def split: if_splits)
  from wait_loop_polls [OF _ this] ok show ?thesis
    by (auto simp: ready_run_def WaitForFlashReady_def)
qed

lemma PageProgramFlash_OK:
  assumes "fst (PageProgramFlash drv g p wb d) = FT4222_OK"
  shows "\<exists>bs. ready_run bs \<and> length bs \<le> MAX_WAIT_TIME_MS g
            \<and> snd (snd (PageProgramFlash drv g p wb d)) = page_program g p wb bs"
proof -
  let ?c = "PageProgramCmd g # IntToByteVec (int p * int (FLASH_PAGE_SIZE g))"
  let ?w3 = "and_then (WriteSPI drv wb (FLASH_PAGE_SIZE g) True) (WaitForFlashReady drv g)"
  let ?w2 = "and_then (WriteSPI drv ?c (length ?c) False) ?w3"
  have a: "fst (and_then (WriteEnableFlash drv g) ?w2 d) = FT4222_OK"
    using assms by (simp add: PageProgramFlash_def Let_def)
  let ?d1 = "fst (snd (WriteEnableFlash drv g d))"
  note a1 = and_then_OK [OF a]
  let ?d2 = "fst (snd (WriteSPI drv ?c (length ?c) False ?d1))"
  note a2 = and_then_OK [OF a1(2)]
  let ?d3 = "fst (snd (WriteSPI drv wb (FLASH_PAGE_SIZE g) True ?d2))"
  note a3 = and_then_OK [OF a2(2)]
  obtain bs where bs: "ready_run bs" "length bs \<le> MAX_WAIT_TIME_MS g"
      "snd (snd (WaitForFlashReady drv g ?d3)) = polls g bs"
    using WaitForFlashReady_OK [OF a3(2)] by blast
  have e1: "snd (snd (WriteEnableFlash drv g d)) = [SpiWrite [WriteEnableCmd g] 1 True FT4222_OK]"
    using a1(1) WriteSPI_OK_events [of drv "[WriteEnableCmd g]" 1 True d]
    by (simp add: WriteEnableFlash_def)
  have e2: "snd (snd (WriteSPI drv ?c (length ?c) False ?d1)) = [SpiWrite ?c 4 False FT4222_OK]"
    using a2(1) WriteSPI_OK_events [of drv ?c "length ?c" False ?d1]
    by (simp add: length_IntToByteVec)
  have e3: "snd (snd (WriteSPI drv wb (FLASH_PAGE_SIZE g) True ?d2))
              = [SpiWrite wb (FLASH_PAGE_SIZE g) True FT4222_OK]"
    using a3(1) by (rule WriteSPI_OK_events)
  have "snd (snd (PageProgramFlash drv g p wb d)) = page_program g p wb bs"
    unfolding PageProgramFlash_def Let_def a1(3) a2(3) a3(3) e1 e2 e3 bs(3) page_program_def
    by simp
  with bs(1,2) show ?thesis by blast
qed

lemma c_div_nonneg: "0 \<le> a \<Longrightarrow> 0 < b \<Longrightarrow> c_div a b = a div b"
  by (cases "a = 0") (simp_all add: c_div_def)

lemma c_div_nat: "0 < n \<Longrightarrow> 0 < m \<Longrightarrow> c_div (int n - 1) (int m) = int ((n - 1) div m)"
proof -
  assume n: "0 < n" and m: "0 < m"
  have e: "int n - 1 = int (n - 1)"
    using n by simp
  have "c_div (int (n - 1)) (int m) = int (n - 1) div int m"
    using m by (intro c_div_nonneg) simp_all
  also have "\<dots> = int ((n - 1) div m)"
    by (simp only: zdiv_int)
  finally show ?thesis
    unfolding e .
qed

lemma ceil_div_pred: "0 < n \<Longrightarrow> 0 < m \<Longrightarrow> ceil_div n m = (n - 1) div m + 1"
proof -
  assume n: "0 < n" and m: "0 < m"
  have e: "n + m - 1 = (n - 1) + m"
    using n by simp
  have "((n - 1) + m) div m = (n - 1) div m + 1"
    by (rule div_add_self2) (use m in simp)
  then show ?thesis
    unfolding ceil_div_def e .
qed

lemma ceil_div_dvd: "0 < m \<Longrightarrow> m dvd n \<Longrightarrow> ceil_div n m = n div m"
proof -
  assume m: "0 < m" and d: "m dvd n"
  then obtain k where k: "n = m * k" by (auto simp: dvd_def)
  have "ceil_div n m = (m * k + (m - 1)) div m"
    using m by (simp add: ceil_div_def k)
  also have "\<dots> = k + (m - 1) div m"
    by (rule div_mult_self4) (use m in simp)
  also have "\<dots> = k"
    using m by simp
  also have "k = n div m"
    using k m by simp
  finally show ?thesis .
qed

lemma ceil_div_bounds:
  assumes "0 < n" and "0 < m"
  shows "(ceil_div n m - 1) * m < n" and "n \<le> ceil_div n m * m"
proof -
  define x where "x = (n - 1) div m * m"
  have c: "ceil_div n m = (n - 1) div m + 1"
    using assms by (rule ceil_div_pred)
  have a: "x \<le> n - 1"
    by (simp add: x_def)
  have b: "n - 1 < m + x"
    unfolding x_def using assms(2) by (rule dividend_less_div_times)
  have l: "(ceil_div n m - 1) * m = x"
    using c by (simp add: x_def)
  have u: "ceil_div n m * m = m + x"
    using c by (simp add: x_def algebra_simps)
  from a assms(1) show "(ceil_div n m - 1) * m < n"
    unfolding l by linarith
  from b assms(1) show "n \<le> ceil_div n m * m"
    unfolding u by linarith
qed

lemma pageCount_ceil:
  assumes "pages_fit g" and "0 < length sb" and "length sb \<le> FLASH_SECTOR_SIZE g"
  shows "pageCount g sb = int (ceil_div (length sb) (FLASH_PAGE_SIZE g))"
proof (cases "length sb < FLASH_SECTOR_SIZE g")
  case True
  then show ?thesis
    using assms by (simp add: pageCount_def pages_fit_def c_div_nat ceil_div_pred)
next
  case False
  with assms(3) have "length sb = FLASH_SECTOR_SIZE g" by simp
  then show ?thesis
    using assms(1) by (simp add: pageCount_def pages_fit_def ceil_div_dvd)
qed

lemma pageBuffer_chunk:
  assumes "pages_fit g" and "0 < length sb" and "length sb \<le> FLASH_SECTOR_SIZE g"
      and "k < ceil_div (length sb) (FLASH_PAGE_SIZE g)"
  shows "pageBuffer g sb k = Some (chunk g sb k)"
proof -
  let ?P = "FLASH_PAGE_SIZE g" and ?n = "ceil_div (length sb) (FLASH_PAGE_SIZE g)"
  have P: "0 < ?P" using assms(1) by (simp add: pages_fit_def)
  have pc: "pageCount g sb = int ?n" using assms(1-3) by (rule pageCount_ceil)
  have lo: "(?n - 1) * ?P < length sb" and hi: "length sb \<le> ?n * ?P"
    using ceil_div_bounds [OF assms(2) P] by simp_all
  show ?thesis
  proof (cases "k = ?n - 1")
    case True
    have "length sb - k * ?P \<le> ?P"
    proof -
      have "?n * ?P = k * ?P + ?P" using True assms(4) by (cases ?n) simp_all
      with hi show ?thesis by simp
    qed
    then have "take (length sb - k * ?P) (drop (k * ?P) sb) = take ?P (drop (k * ?P) sb)"
      by simp
    moreover have "int k = pageCount g sb - 1"
      using pc True assms(4) by simp
    moreover have "k * ?P \<le> length sb"
      using lo True by simp
    ultimately show ?thesis
      by (simp add: pageBuffer_def vec_range_def chunk_def)
  next
    case False
    with assms(4) have "k + 1 \<le> ?n - 1" by simp
    then have "(k + 1) * ?P \<le> (?n - 1) * ?P"
      by (rule mult_le_mono1)
    with lo have "(k + 1) * ?P \<le> length sb" by simp
    moreover have "int k \<noteq> pageCount g sb - 1"
      using pc False assms(4) by simp
    ultimately show ?thesis
      by (simp add: pageBuffer_def vec_range_def chunk_def)
  qed
qed

lemma page_loop_OK:
  assumes "pages_fit g" and "0 < length sb" and "length sb \<le> FLASH_SECTOR_SIZE g"
      and "fst (page_loop drv g si sb i d) = FT4222_OK"
  shows "\<exists>bss. length bss = ceil_div (length sb) (FLASH_PAGE_SIZE g) - i
            \<and> list_all (\<lambda>bs. ready_run bs \<and> length bs \<le> MAX_WAIT_TIME_MS g) bss
            \<and> snd (snd (page_loop drv g si sb i d)) =
                concat (map (\<lambda>(k, bs). page_program g
                               (si * (FLASH_SECTOR_SIZE g div FLASH_PAGE_SIZE g) + k) (chunk g sb k) bs)
                          (zip [i..<ceil_div (length sb) (FLASH_PAGE_SIZE g)] bss))"
  using assms(4)
proof (induction "ceil_div (length sb) (FLASH_PAGE_SIZE g) - i" arbitrary: i d)
  case 0
  have pc: "pageCount g sb = int (ceil_div (length sb) (FLASH_PAGE_SIZE g))"
    using assms(1-3) by (rule pageCount_ceil)
  from 0 have "\<not> int i < pageCount g sb"
    using pc by simp
  then have "snd (snd (page_loop drv g si sb i d)) = []"
    by (simp add: page_loop.simps [of drv g si sb i])
  with 0 show ?case
    by (intro exI [of _ "[]"]) simp
next
  case (Suc n)
  let ?N = "ceil_div (length sb) (FLASH_PAGE_SIZE g)"
  let ?p = "si * (FLASH_SECTOR_SIZE g div FLASH_PAGE_SIZE g) + i"
  have pc: "pageCount g sb = int ?N"
    using assms(1-3) by (rule pageCount_ceil)
  have lt: "i < ?N"
    using Suc.hyps(2) by simp
  then have c: "int i < pageCount g sb"
    using pc by simp
  have pb: "pageBuffer g sb i = Some (chunk g sb i)"
    using assms(1-3) lt by (rule pageBuffer_chunk)
  obtain s1 d1 e1 where p: "PageProgramFlash drv g ?p (chunk g sb i) d = (s1, d1, e1)"
    by (rule prod_cases3)
  obtain s2 d2 e2 where l: "page_loop drv g si sb (i + 1) d1 = (s2, d2, e2)"
    by (rule prod_cases3)
  have s1: "s1 = FT4222_OK"
    using Suc.prems c pb p by (simp add: page_loop.simps [of drv g si sb i] split: if_splits)
  have unfold: "page_loop drv g si sb i d = (s2, d2, e1 @ e2)"
    using c pb p s1 l by (simp add: page_loop.simps [of drv g si sb i])
  have s2: "s2 = FT4222_OK"
    using Suc.prems unfold by simp
  obtain bs where bs: "ready_run bs" "length bs \<le> MAX_WAIT_TIME_MS g"
      "e1 = page_program g ?p (chunk g sb i) bs"
    using PageProgramFlash_OK [of drv g ?p "chunk g sb i" d] p s1 by auto
  have n: "n = ?N - (i + 1)"
    using Suc.hyps(2) by simp
  have "fst (page_loop drv g si sb (i + 1) d1) = FT4222_OK"
    using l s2 by simp
  from Suc.hyps(1) [OF n this] l
  obtain bss where bss: "length bss = ?N - (i + 1)"
      "list_all (\<lambda>bs. ready_run bs \<and> length bs \<le> MAX_WAIT_TIME_MS g) bss"
      "e2 = concat (map (\<lambda>(k, bs). page_program g
                               (si * (FLASH_SECTOR_SIZE g div FLASH_PAGE_SIZE g) + k) (chunk g sb k) bs)
                          (zip [i + 1..<?N] bss))"
    by auto
  have u: "[i..<?N] = i # [i + 1..<?N]"
    using lt by (simp add: upt_conv_Cons)
  have "length (bs # bss) = ?N - i"
    using bss(1) lt by simp
  moreover have "list_all (\<lambda>bs. ready_run bs \<and> length bs \<le> MAX_WAIT_TIME_MS g) (bs # bss)"
    using bs(1,2) bss(2) by simp
  moreover have "e1 @ e2 = concat (map (\<lambda>(k, bs). page_program g
                               (si * (FLASH_SECTOR_SIZE g div FLASH_PAGE_SIZE g) + k) (chunk g sb k) bs)
                          (zip [i..<?N] (bs # bss)))"
    unfolding u using bs(3) bss(3) by simp
  ultimately show ?case
    unfolding unfold snd_conv by blast
qed

text \<open>
  A sector program that returns \<open>FT4222_OK\<close>, for a buffer of at least one byte and at
  most a sector: one page program per chunk of \<open>FLASH_PAGE_SIZE\<close> bytes, in order,
  page \<open>k\<close> at the address of page \<open>sectorIndex * (FLASH_SECTOR_SIZE / FLASH_PAGE_SIZE) + k\<close>,
  each with its write enable before and its ready wait after.
\<close>

lemma SectorProgramFlash_pages:
  assumes "pages_fit g" and "0 < length sb" and "length sb \<le> FLASH_SECTOR_SIZE g"
      and "fst (SectorProgramFlash drv g si sb d) = FT4222_OK"
  shows "\<exists>bss. length bss = ceil_div (length sb) (FLASH_PAGE_SIZE g)
            \<and> list_all (\<lambda>bs. ready_run bs \<and> length bs \<le> MAX_WAIT_TIME_MS g) bss
            \<and> snd (snd (SectorProgramFlash drv g si sb d)) =
                concat (map (\<lambda>(k, bs). page_program g
                               (si * (FLASH_SECTOR_SIZE g div FLASH_PAGE_SIZE g) + k) (chunk g sb k) bs)
                          (zip [0..<ceil_div (length sb) (FLASH_PAGE_SIZE g)] bss))"
  using page_loop_OK [OF assms(1-3), of drv si 0 d] assms(4)
  by (simp add: SectorProgramFlash_def)

lemma and_then_events_prefix:
  "\<exists>rest. snd (snd (and_then f h d)) = snd (snd (f d)) @ rest"
  by (auto simp: and_then_def split: prod.splits)

lemma PageProgramFlash_first:
  "\<exists>st rest. snd (snd (PageProgramFlash drv g p wb d)) = SpiWrite [WriteEnableCmd g] 1 True st # rest"
proof -
  obtain rest where "snd (snd (PageProgramFlash drv g p wb d))
      = snd (snd (WriteEnableFlash drv g d)) @ rest"
    unfolding PageProgramFlash_def Let_def
    using and_then_events_prefix [of "WriteEnableFlash drv g" _ d] by auto
  then show ?thesis
    by (simp add: WriteEnableFlash_def WriteSPI_events)
qed

lemma page_loop_first:
  assumes "0 < pageCount g sb" and "pageBuffer g sb 0 = Some pb"
  shows "\<exists>st rest. snd (snd (page_loop drv g si sb 0 d)) = SpiWrite [WriteEnableCmd g] 1 True st # rest"
proof -
  let ?p = "si * (FLASH_SECTOR_SIZE g div FLASH_PAGE_SIZE g) + 0"
  obtain s1 d1 e1 where p: "PageProgramFlash drv g ?p pb d = (s1, d1, e1)"
    by (rule prod_cases3)
  obtain st rest where e1: "e1 = SpiWrite [WriteEnableCmd g] 1 True st # rest"
    using PageProgramFlash_first [of drv g ?p pb d] p by auto
  show ?thesis
    using assms p e1
    by (auto simp: page_loop.simps [of drv g si sb 0] split: prod.splits)
qed

lemma page_loop_events:
  assumes "fst (page_loop drv g si sb i d) = FT4222_OK"
  shows "\<exists>bss. length bss = nat (pageCount g sb) - i
            \<and> list_all (\<lambda>bs. ready_run bs \<and> length bs \<le> MAX_WAIT_TIME_MS g) bss
            \<and> snd (snd (page_loop drv g si sb i d)) =
                concat (map (\<lambda>(k, bs). page_program g
                               (si * (FLASH_SECTOR_SIZE g div FLASH_PAGE_SIZE g) + k)
                               (the (pageBuffer g sb k)) bs)
                          (zip [i..<nat (pageCount g sb)] bss))"
  using assms
proof (induction "nat (pageCount g sb) - i" arbitrary: i d)
  case 0
  then have "\<not> int i < pageCount g sb"
    by simp
  then have "snd (snd (page_loop drv g si sb i d)) = []"
    by (simp add: page_loop.simps [of drv g si sb i])
  with 0 show ?case
    by (intro exI [of _ "[]"]) simp
next
  case (Suc n)
  let ?N = "nat (pageCount g sb)"
  let ?p = "si * (FLASH_SECTOR_SIZE g div FLASH_PAGE_SIZE g) + i"
  have lt: "i < ?N"
    using Suc.hyps(2) by simp
  then have c: "int i < pageCount g sb"
    by simp
  obtain pb where pb: "pageBuffer g sb i = Some pb"
    using Suc.prems c by (cases "pageBuffer g sb i") (simp_all add: page_loop.simps [of drv g si sb i])
  obtain s1 d1 e1 where p: "PageProgramFlash drv g ?p pb d = (s1, d1, e1)"
    by (rule prod_cases3)
  obtain s2 d2 e2 where l: "page_loop drv g si sb (i + 1) d1 = (s2, d2, e2)"
    by (rule prod_cases3)
  have s1: "s1 = FT4222_OK"
    using Suc.prems c pb p by (simp add: page_loop.simps [of drv g si sb i] split: if_splits)
  have unfold: "page_loop drv g si sb i d = (s2, d2, e1 @ e2)"
    using c pb p s1 l by (simp add: page_loop.simps [of drv g si sb i])
  have s2: "s2 = FT4222_OK"
    using Suc.prems unfold by simp
  obtain bs where bs: "ready_run bs" "length bs \<le> MAX_WAIT_TIME_MS g"
      "e1 = page_program g ?p pb bs"
    using PageProgramFlash_OK [of drv g ?p pb d] p s1 by auto
  have n: "n = ?N - (i + 1)"
    using Suc.hyps(2) by simp
  have "fst (page_loop drv g si sb (i + 1) d1) = FT4222_OK"
    using l s2 by simp
  from Suc.hyps(1) [OF n this] l
  obtain bss where bss: "length bss = ?N - (i + 1)"
      "list_all (\<lambda>bs. ready_run bs \<and> length bs \<le> MAX_WAIT_TIME_MS g) bss"
      "e2 = concat (map (\<lambda>(k, bs). page_program g
                               (si * (FLASH_SECTOR_SIZE g div FLASH_PAGE_SIZE g) + k)
                               (the (pageBuffer g sb k)) bs)
                          (zip [i + 1..<?N] bss))"
    by auto
  have u: "[i..<?N] = i # [i + 1..<?N]"
    using lt by (simp add: upt_conv_Cons)
  have "length (bs # bss) = ?N - i"
    using bss(1) lt by simp
  moreover have "list_all (\<lambda>bs. ready_run bs \<and> length bs \<le> MAX_WAIT_TIME_MS g) (bs # bss)"
    using bs(1,2) bss(2) by simp
  moreover have "e1 @ e2 = concat (map (\<lambda>(k, bs). page_program g
                               (si * (FLASH_SECTOR_SIZE g div FLASH_PAGE_SIZE g) + k)
                               (the (pageBuffer g sb k)) bs)
                          (zip [i..<?N] (bs # bss)))"
    unfolding u using bs(3) bss(3) pb by simp
  ultimately show ?case
    unfolding unfold snd_conv by blast
qed

lemmas flash_run_defs = SectorProgramFlash_def page_loop.simps pageCount_def pageBuffer_def
  vec_range_def c_div_def PageProgramFlash_def WriteEnableFlash_def WaitForFlashReady_def
  wait_loop.simps and_then_def WriteSPI_def ReadSPI_def ideal_flash_def flash_write_def
  flash_read_def flash_execute_def wire_def stored_def addr24_def program_def erase_def
  g0_def erased_def IntToByteVec_div_mod Let_def upt_rec

subsection \<open>Claim C5: the pages of a sector program\<close>

text \<open>
  Claim C5 holds for every buffer of at least one byte (lemma
  \<open>SectorProgramFlash_pages\<close> above), and fails for the empty buffer. There the
  claim's \<open>ceil (len / pageSize)\<close> is zero page programs, but the source computes
  \<^verbatim>\<open>1 + (0 - 1) / FLASH_PAGE_SIZE\<close>, which is 1 because C++ division truncates: with
  pages of two bytes or more, the sector program of an empty buffer is one page program
  of an empty chunk at the sector's first page, and so starts with a write enable.
\<close>

theorem SectorProgramFlash_empty_buffer:
  assumes "2 \<le> FLASH_PAGE_SIZE g" and "0 < FLASH_SECTOR_SIZE g"
  shows "ceil_div (length ([] :: uint8 list)) (FLASH_PAGE_SIZE g) = 0
       \<and> SectorProgramFlash drv g si [] d
           = PageProgramFlash drv g (si * (FLASH_SECTOR_SIZE g div FLASH_PAGE_SIZE g)) [] d
       \<and> (\<exists>st rest. snd (snd (SectorProgramFlash drv g si [] d))
             = SpiWrite [WriteEnableCmd g] 1 True st # rest)"
proof -
  have "(1 :: int) div int (FLASH_PAGE_SIZE g) = 0"
    using assms(1) by (simp add: div_pos_pos_trivial)
  then have pc: "pageCount g [] = 1"
    using assms by (simp add: pageCount_def c_div_def)
  have pb: "pageBuffer g [] 0 = Some []"
    using pc by (simp add: pageBuffer_def vec_range_def)
  have stop: "page_loop drv g si [] (Suc 0) d' = (FT4222_OK, d', [])" for d'
    using pc by (simp add: page_loop.simps [of drv g si "[]" "Suc 0"])
  have eq: "SectorProgramFlash drv g si [] d
      = PageProgramFlash drv g (si * (FLASH_SECTOR_SIZE g div FLASH_PAGE_SIZE g)) [] d"
    using pc pb stop
    by (simp add: SectorProgramFlash_def page_loop.simps [of drv g si "[]" 0] split: prod.splits)
  have "ceil_div (length ([] :: uint8 list)) (FLASH_PAGE_SIZE g) = 0"
    using assms(1) by (simp add: ceil_div_def)
  with eq PageProgramFlash_first [of drv g _ "[]" d] show ?thesis
    by simp
qed

text \<open>
  On the idealized flash with pages of two bytes: the empty buffer costs one page
  program, whose payload transfer asks for two bytes of an empty buffer, and the two
  bytes behind the buffer (\<open>0xAA\<close> here) end up in the flash.
\<close>

theorem SectorProgramFlash_empty_buffer_witness:
  "2 \<le> FLASH_PAGE_SIZE g0 \<and> 0 < FLASH_SECTOR_SIZE g0
   \<and> SectorProgramFlash (ideal_flash g0 (\<lambda>k. 0xAA)) g0 0 [] erased
       = PageProgramFlash (ideal_flash g0 (\<lambda>k. 0xAA)) g0 0 [] erased
   \<and> fst (SectorProgramFlash (ideal_flash g0 (\<lambda>k. 0xAA)) g0 0 [] erased) = FT4222_OK
   \<and> snd (snd (SectorProgramFlash (ideal_flash g0 (\<lambda>k. 0xAA)) g0 0 [] erased))
       = [SpiWrite [0x06] 1 True FT4222_OK, SpiWrite [0x02, 0, 0, 0] 4 False FT4222_OK,
          SpiWrite [] 2 True FT4222_OK,
          SpiWrite [0x05] 1 False FT4222_OK, SpiRead 1 True FT4222_OK [0]]
   \<and> map (mem (fst (snd (SectorProgramFlash (ideal_flash g0 (\<lambda>k. 0xAA)) g0 0 [] erased)))) [0..<2]
       = [0xAA, 0xAA]"
proof -
  have h: "2 \<le> FLASH_PAGE_SIZE g0" "0 < FLASH_SECTOR_SIZE g0"
    by (simp_all add: g0_def)
  have z: "(0 :: nat) * (FLASH_SECTOR_SIZE g0 div FLASH_PAGE_SIZE g0) = 0"
    by simp
  note eq = SectorProgramFlash_empty_buffer [OF h, of "ideal_flash g0 (\<lambda>k. 0xAA)" 0 erased]
  have run: "fst (PageProgramFlash (ideal_flash g0 (\<lambda>k. 0xAA)) g0 0 [] erased) = FT4222_OK"
    "snd (snd (PageProgramFlash (ideal_flash g0 (\<lambda>k. 0xAA)) g0 0 [] erased))
       = [SpiWrite [0x06] 1 True FT4222_OK, SpiWrite [0x02, 0, 0, 0] 4 False FT4222_OK,
          SpiWrite [] 2 True FT4222_OK,
          SpiWrite [0x05] 1 False FT4222_OK, SpiRead 1 True FT4222_OK [0]]"
    "map (mem (fst (snd (PageProgramFlash (ideal_flash g0 (\<lambda>k. 0xAA)) g0 0 [] erased)))) [0..<2]
       = [0xAA, 0xAA]"
    by (simp_all add: flash_run_defs)
  from eq have e: "SectorProgramFlash (ideal_flash g0 (\<lambda>k. 0xAA)) g0 0 [] erased
       = PageProgramFlash (ideal_flash g0 (\<lambda>k. 0xAA)) g0 0 [] erased"
    unfolding z by simp
  show ?thesis
    unfolding e using h run by simp
qed

subsection \<open>Claim C3: the payload of a short final chunk\<close>

text \<open>
  Claim C3 fails. \<^verbatim>\<open>PageProgramFlash\<close> passes \<^verbatim>\<open>FLASH_PAGE_SIZE\<close> as the byte count of
  the payload transfer whatever the length of its buffer (the third transfer of
  \<open>page_program\<close>, see \<open>PageProgramFlash_OK\<close>). On the idealized flash with pages of
  two bytes, the sector program of the three bytes 1, 2, 3 sends the chunk of one byte
  \<open>[3]\<close> with a count of two: the transfer reads one byte past the end of the chunk,
  and that byte (\<open>0xAA\<close> here) is written to flash address 3, behind the window.
\<close>

theorem short_chunk_sends_full_page:
  "chunk g0 [1, 2, 3] 1 = [3] \<and> FLASH_PAGE_SIZE g0 = 2
   \<and> fst (SectorProgramFlash (ideal_flash g0 (\<lambda>k. 0xAA)) g0 0 [1, 2, 3] erased) = FT4222_OK
   \<and> snd (snd (SectorProgramFlash (ideal_flash g0 (\<lambda>k. 0xAA)) g0 0 [1, 2, 3] erased))
       = [SpiWrite [0x06] 1 True FT4222_OK, SpiWrite [0x02, 0, 0, 0] 4 False FT4222_OK,
          SpiWrite [1, 2] 2 True FT4222_OK,
          SpiWrite [0x05] 1 False FT4222_OK, SpiRead 1 True FT4222_OK [0],
          SpiWrite [0x06] 1 True FT4222_OK, SpiWrite [0x02, 0, 0, 2] 4 False FT4222_OK,
          SpiWrite [3] 2 True FT4222_OK,
          SpiWrite [0x05] 1 False FT4222_OK, SpiRead 1 True FT4222_OK [0]]
   \<and> map (mem (fst (snd (SectorProgramFlash (ideal_flash g0 (\<lambda>k. 0xAA)) g0 0 [1, 2, 3] erased))))
         [0..<4]
       = [1, 2, 3, 0xAA]"
  by (simp add: flash_run_defs chunk_def)

subsection \<open>Claim C4: no input is rejected\<close>

text \<open>
  Claim C4 fails: the source has no check of its input and no status for it. On the
  idealized flash with sectors of four bytes a buffer of five bytes is not rejected:
  the sector program returns \<open>FT4222_OK\<close> after ten transfers.
\<close>

theorem oversize_buffer_not_rejected:
  "FLASH_SECTOR_SIZE g0 < length [1, 2, 3, 4, 5 :: uint8]
   \<and> fst (SectorProgramFlash (ideal_flash g0 (\<lambda>k. 0xAA)) g0 0 [1, 2, 3, 4, 5] erased) = FT4222_OK
   \<and> snd (snd (SectorProgramFlash (ideal_flash g0 (\<lambda>k. 0xAA)) g0 0 [1, 2, 3, 4, 5] erased))
       = [SpiWrite [0x06] 1 True FT4222_OK, SpiWrite [0x02, 0, 0, 0] 4 False FT4222_OK,
          SpiWrite [1, 2] 2 True FT4222_OK,
          SpiWrite [0x05] 1 False FT4222_OK, SpiRead 1 True FT4222_OK [0],
          SpiWrite [0x06] 1 True FT4222_OK, SpiWrite [0x02, 0, 0, 2] 4 False FT4222_OK,
          SpiWrite [3, 4, 5] 2 True FT4222_OK,
          SpiWrite [0x05] 1 False FT4222_OK, SpiRead 1 True FT4222_OK [0]]"
  by (simp add: flash_run_defs)

lemma concat_map_zip_cong:
  assumes "\<And>k y. k \<in> set xs \<Longrightarrow> f (k, y) = h (k, y)"
  shows "concat (map f (zip xs ys)) = concat (map h (zip xs ys))"
proof -
  have "map f (zip xs ys) = map h (zip xs ys)"
    by (rule map_cong [OF refl]) (auto dest: set_zip_leftD intro: assms)
  then show ?thesis by (rule arg_cong)
qed

text \<open>
  What the sector program does with a buffer longer than a sector, on any transport.
  It starts to program at once: its first transfer is the write enable of the first
  page. When it returns \<open>FT4222_OK\<close> it has programmed the
  \<open>FLASH_SECTOR_SIZE / FLASH_PAGE_SIZE\<close> pages of the sector; the last page program is
  handed the whole rest of the buffer and asks for \<open>FLASH_PAGE_SIZE\<close> bytes of it.
\<close>

theorem SectorProgramFlash_oversize:
  assumes "pages_fit g" and "0 < FLASH_SECTOR_SIZE g" and "FLASH_SECTOR_SIZE g < length sb"
  shows "(\<exists>st rest. snd (snd (SectorProgramFlash drv g si sb d))
             = SpiWrite [WriteEnableCmd g] 1 True st # rest)
       \<and> (fst (SectorProgramFlash drv g si sb d) = FT4222_OK \<longrightarrow>
            (\<exists>bss. length bss = FLASH_SECTOR_SIZE g div FLASH_PAGE_SIZE g
               \<and> list_all (\<lambda>bs. ready_run bs \<and> length bs \<le> MAX_WAIT_TIME_MS g) bss
               \<and> snd (snd (SectorProgramFlash drv g si sb d)) =
                   concat (map (\<lambda>(k, bs). page_program g
                                  (si * (FLASH_SECTOR_SIZE g div FLASH_PAGE_SIZE g) + k)
                                  (if k = FLASH_SECTOR_SIZE g div FLASH_PAGE_SIZE g - 1
                                   then drop (k * FLASH_PAGE_SIZE g) sb else chunk g sb k) bs)
                             (zip [0..<FLASH_SECTOR_SIZE g div FLASH_PAGE_SIZE g] bss))))"
proof -
  let ?P = "FLASH_PAGE_SIZE g" and ?S = "FLASH_SECTOR_SIZE g"
  let ?R = "?S div ?P"
  have P: "0 < ?P" and dvd: "?P dvd ?S"
    using assms(1) by (simp_all add: pages_fit_def)
  have S: "?R * ?P = ?S"
    using dvd by simp
  have R: "0 < ?R"
    using S assms(2) by (cases "?R = 0") auto
  have pc: "pageCount g sb = int ?R"
    using assms(3) by (simp add: pageCount_def)
  have pb: "pageBuffer g sb k
      = Some (if k = ?R - 1 then drop (k * ?P) sb else chunk g sb k)" if "k < ?R" for k
  proof (cases "k = ?R - 1")
    case True
    have "k * ?P \<le> ?R * ?P"
      using that by (intro mult_le_mono1) simp
    with S assms(3) have "k * ?P \<le> length sb" by simp
    moreover have "int k = pageCount g sb - 1"
      using pc True R by simp
    ultimately show ?thesis
      using True by (simp add: pageBuffer_def vec_range_def)
  next
    case False
    with that have "k + 1 \<le> ?R" by simp
    then have "(k + 1) * ?P \<le> ?R * ?P"
      by (rule mult_le_mono1)
    with S assms(3) have "(k + 1) * ?P \<le> length sb" by simp
    moreover have "int k \<noteq> pageCount g sb - 1"
      using pc False R by simp
    ultimately show ?thesis
      using False by (simp add: pageBuffer_def vec_range_def chunk_def)
  qed
  have first: "\<exists>st rest. snd (snd (SectorProgramFlash drv g si sb d))
             = SpiWrite [WriteEnableCmd g] 1 True st # rest"
    unfolding SectorProgramFlash_def
    using pc R pb [OF R] by (intro page_loop_first) simp_all
  have pages: "\<exists>bss. length bss = ?R
               \<and> list_all (\<lambda>bs. ready_run bs \<and> length bs \<le> MAX_WAIT_TIME_MS g) bss
               \<and> snd (snd (SectorProgramFlash drv g si sb d)) =
                   concat (map (\<lambda>(k, bs). page_program g (si * ?R + k)
                                  (if k = ?R - 1 then drop (k * ?P) sb else chunk g sb k) bs)
                             (zip [0..<?R] bss))"
    if ok: "fst (SectorProgramFlash drv g si sb d) = FT4222_OK"
  proof -
    from ok have "fst (page_loop drv g si sb 0 d) = FT4222_OK"
      by (simp add: SectorProgramFlash_def)
    from page_loop_events [OF this]
    obtain bss where bss: "length bss = ?R"
        "list_all (\<lambda>bs. ready_run bs \<and> length bs \<le> MAX_WAIT_TIME_MS g) bss"
        "snd (snd (page_loop drv g si sb 0 d)) =
           concat (map (\<lambda>(k, bs). page_program g (si * ?R + k) (the (pageBuffer g sb k)) bs)
                     (zip [0..<?R] bss))"
      unfolding pc by auto
    have "concat (map (\<lambda>(k, bs). page_program g (si * ?R + k) (the (pageBuffer g sb k)) bs)
                     (zip [0..<?R] bss))
        = concat (map (\<lambda>(k, bs). page_program g (si * ?R + k)
                                  (if k = ?R - 1 then drop (k * ?P) sb else chunk g sb k) bs)
                     (zip [0..<?R] bss))"
      by (rule concat_map_zip_cong) (simp add: pb)
    with bss show ?thesis
      unfolding SectorProgramFlash_def by auto
  qed
  from first pages show ?thesis
    by blast
qed

text \<open>The run above is such a run: the third page program is handed \<open>[3, 4, 5]\<close>.\<close>

theorem SectorProgramFlash_oversize_witness:
  "pages_fit g0 \<and> 0 < FLASH_SECTOR_SIZE g0 \<and> FLASH_SECTOR_SIZE g0 < length [1, 2, 3, 4, 5 :: uint8]
   \<and> fst (SectorProgramFlash (ideal_flash g0 (\<lambda>k. 0xAA)) g0 0 [1, 2, 3, 4, 5] erased) = FT4222_OK
   \<and> (\<exists>bss. length bss = FLASH_SECTOR_SIZE g0 div FLASH_PAGE_SIZE g0
         \<and> list_all (\<lambda>bs. ready_run bs \<and> length bs \<le> MAX_WAIT_TIME_MS g0) bss
         \<and> snd (snd (SectorProgramFlash (ideal_flash g0 (\<lambda>k. 0xAA)) g0 0 [1, 2, 3, 4, 5] erased)) =
             concat (map (\<lambda>(k, bs). page_program g0
                            (0 * (FLASH_SECTOR_SIZE g0 div FLASH_PAGE_SIZE g0) + k)
                            (if k = FLASH_SECTOR_SIZE g0 div FLASH_PAGE_SIZE g0 - 1
                             then drop (k * FLASH_PAGE_SIZE g0) [1, 2, 3, 4, 5]
                             else chunk g0 [1, 2, 3, 4, 5] k) bs)
                       (zip [0..<FLASH_SECTOR_SIZE g0 div FLASH_PAGE_SIZE g0] bss)))"
proof -
  have h: "pages_fit g0" "0 < FLASH_SECTOR_SIZE g0"
      "FLASH_SECTOR_SIZE g0 < length [1, 2, 3, 4, 5 :: uint8]"
    by (simp_all add: pages_fit_def g0_def)
  have ok: "fst (SectorProgramFlash (ideal_flash g0 (\<lambda>k. 0xAA)) g0 0 [1, 2, 3, 4, 5] erased)
      = FT4222_OK"
    by (simp add: flash_run_defs)
  show ?thesis
    using SectorProgramFlash_oversize [OF h, of "ideal_flash g0 (\<lambda>k. 0xAA)" 0 erased] h ok
    by blast
qed

subsection \<open>Claim C8: the chunks of a validation\<close>

lemma copy_chunk_fold:
  assumes "p + k \<le> length rb" and "k \<le> length tb"
  shows "fold (\<lambda>j rb. rb[p + j := tb ! j]) [0..<k] rb = take p rb @ take k tb @ drop (p + k) rb"
  using assms
proof (induction k)
  case 0
  then show ?case by simp
next
  case (Suc k)
  let ?v = "take p rb @ take k tb @ drop (p + k) rb"
  have ih: "fold (\<lambda>j rb. rb[p + j := tb ! j]) [0..<k] rb = ?v"
    using Suc by simp
  have d: "drop (p + k) rb = rb ! (p + k) # drop (p + Suc k) rb"
    using Suc.prems(1) by (simp add: Cons_nth_drop_Suc)
  have len: "length (take p rb @ take k tb) = p + k"
    using Suc.prems by simp
  have "?v = (take p rb @ take k tb) @ rb ! (p + k) # drop (p + Suc k) rb"
    unfolding d by simp
  then have "?v[p + k := tb ! k] = (take p rb @ take k tb) @ tb ! k # drop (p + Suc k) rb"
    using len by (metis list_update_length)
  then have "?v[p + k := tb ! k] = take p rb @ (take k tb @ [tb ! k]) @ drop (p + Suc k) rb"
    by simp
  moreover have "take k tb @ [tb ! k] = take (Suc k) tb"
    using Suc.prems(2) by (simp add: take_Suc_conv_app_nth)
  ultimately show ?case
    using ih by simp
qed

lemma copy_chunk_eq:
  assumes "p + length tb \<le> length rb"
  shows "copy_chunk rb p tb (length tb) = take p rb @ tb @ drop (p + length tb) rb"
  using copy_chunk_fold [OF assms order_refl] by (simp add: copy_chunk_def)

lemma chunkCount_ceil:
  assumes "0 < length fb" and "0 < MAX_READ_SIZE g"
  shows "chunkCount g fb = int (ceil_div (length fb) (MAX_READ_SIZE g))"
  using assms by (simp add: chunkCount_def c_div_nat ceil_div_pred)

lemma bytesToRead_min:
  assumes "0 < length fb" and "0 < MAX_READ_SIZE g"
      and "i < ceil_div (length fb) (MAX_READ_SIZE g)"
  shows "bytesToRead g fb i = int (min (MAX_READ_SIZE g) (length fb - i * MAX_READ_SIZE g))"
    and "i * MAX_READ_SIZE g < length fb"
proof -
  let ?M = "MAX_READ_SIZE g" and ?n = "ceil_div (length fb) (MAX_READ_SIZE g)"
  have cc: "chunkCount g fb = int ?n"
    using assms(1,2) by (rule chunkCount_ceil)
  have lo: "(?n - 1) * ?M < length fb" and hi: "length fb \<le> ?n * ?M"
    using ceil_div_bounds [OF assms(1,2)] by simp_all
  have "i \<le> ?n - 1"
    using assms(3) by simp
  then have "i * ?M \<le> (?n - 1) * ?M"
    by (rule mult_le_mono1)
  then show lt: "i * ?M < length fb"
    using lo by (rule le_less_trans)
  show "bytesToRead g fb i = int (min ?M (length fb - i * ?M))"
  proof (cases "i = ?n - 1")
    case True
    have "?n * ?M = i * ?M + ?M"
      using True assms(3) by (cases ?n) simp_all
    with hi have m: "min ?M (length fb - i * ?M) = length fb - i * ?M" by simp
    have c1: "int i = chunkCount g fb - 1"
      using cc True assms(3) by simp
    have "bytesToRead g fb i = int (length fb) - int i * int ?M"
      by (simp only: bytesToRead_def if_P [OF c1])
    also have "\<dots> = int (length fb - i * ?M)"
      using lt by (simp add: of_nat_diff)
    finally show ?thesis
      unfolding m .
  next
    case False
    with assms(3) have "i + 1 \<le> ?n - 1" by simp
    then have "(i + 1) * ?M \<le> (?n - 1) * ?M"
      by (rule mult_le_mono1)
    with lo have "?M \<le> length fb - i * ?M" by simp
    moreover have "int i \<noteq> chunkCount g fb - 1"
      using cc False assms(3) by simp
    ultimately show ?thesis
      by (simp add: bytesToRead_def min_def)
  qed
qed

lemma read_chunks_OK:
  assumes "0 < length fb" and "0 < MAX_READ_SIZE g" and "length rb = length fb"
      and "all_ok (snd (snd (read_chunks drv g fb i (i * MAX_READ_SIZE g) rb d)))"
      and "i \<le> ceil_div (length fb) (MAX_READ_SIZE g)"
  shows "\<exists>cs. map length cs = map (\<lambda>k. min (MAX_READ_SIZE g) (length fb - k * MAX_READ_SIZE g))
                                 [i..<ceil_div (length fb) (MAX_READ_SIZE g)]
            \<and> snd (snd (read_chunks drv g fb i (i * MAX_READ_SIZE g) rb d)) =
                concat (map (\<lambda>(k, c). chunk_read g (k * MAX_READ_SIZE g) c)
                          (zip [i..<ceil_div (length fb) (MAX_READ_SIZE g)] cs))
            \<and> fst (read_chunks drv g fb i (i * MAX_READ_SIZE g) rb d)
                = (FT4222_OK, take (i * MAX_READ_SIZE g) rb @ concat cs)"
  using assms(3-5)
proof (induction "ceil_div (length fb) (MAX_READ_SIZE g) - i" arbitrary: i rb d)
  case 0
  let ?M = "MAX_READ_SIZE g" and ?n = "ceil_div (length fb) (MAX_READ_SIZE g)"
  have cc: "chunkCount g fb = int ?n"
    using assms(1,2) by (rule chunkCount_ceil)
  from 0 have i: "i = ?n" by simp
  have "length fb \<le> ?n * ?M"
    using ceil_div_bounds [OF assms(1,2)] by simp
  then have "take (i * ?M) rb = rb"
    using i "0.prems"(1) by simp
  moreover have "\<not> int i < chunkCount g fb"
    using i cc by simp
  then have "read_chunks drv g fb i (i * ?M) rb d = ((FT4222_OK, rb), d, [])"
    by (simp add: read_chunks.simps [of drv g fb i])
  ultimately show ?case
    using i by (intro exI [of _ "[]"]) simp
next
  case (Suc n)
  let ?M = "MAX_READ_SIZE g" and ?n = "ceil_div (length fb) (MAX_READ_SIZE g)"
  let ?c = "ReadCmd g # IntToByteVec (int (i * ?M))"
  let ?m = "min ?M (length fb - i * ?M)"
  have cc: "chunkCount g fb = int ?n"
    using assms(1,2) by (rule chunkCount_ceil)
  have lt: "i < ?n"
    using Suc.hyps(2) by simp
  then have c: "int i < chunkCount g fb"
    using cc by simp
  have b: "nat (bytesToRead g fb i) = ?m" and inside: "i * ?M < length fb"
    using bytesToRead_min [OF assms(1,2) lt] by simp_all
  obtain s1 d1 e1 where w: "WriteSPI drv ?c (length ?c) False d = (s1, d1, e1)"
    by (rule prod_cases3)
  have e1: "e1 = [SpiWrite ?c 4 False s1]"
    using WriteSPI_events [of drv ?c "length ?c" False d] w by (simp add: length_IntToByteVec)
  obtain s2 tb2 d2 e2 where r: "ReadSPI drv (replicate ?m 0) ?m True d1 = ((s2, tb2), d2, e2)"
    by (cases "ReadSPI drv (replicate ?m 0) ?m True d1") auto
  have e2: "e2 = [SpiRead ?m True s2 tb2]"
    using ReadSPI_events [of drv "replicate ?m 0" ?m True d1] r by simp
  have ltb: "length tb2 = ?m"
    using ReadSPI_length [of drv "replicate ?m 0" ?m True d1] r by simp
  let ?rb = "copy_chunk rb (i * ?M) tb2 ?m"
  obtain r3 d3 e3 where l: "read_chunks drv g fb (i + 1) (i * ?M + ?M) ?rb d2 = (r3, d3, e3)"
    by (rule prod_cases3)
  have s1: "s1 = FT4222_OK"
    using Suc.prems(2) c w e1 b
    by (auto simp: read_chunks.simps [of drv g fb i] Let_def all_ok_def split: if_splits prod.splits)
  have s2: "s2 = FT4222_OK"
    using Suc.prems(2) c w e1 s1 r e2 b
    by (auto simp: read_chunks.simps [of drv g fb i] Let_def all_ok_def split: if_splits prod.splits)
  have unfold: "read_chunks drv g fb i (i * ?M) rb d = (r3, d3, e1 @ e2 @ e3)"
    using c w s1 r s2 l b by (simp add: read_chunks.simps [of drv g fb i] Let_def)
  have fit: "i * ?M + length tb2 \<le> length rb"
    using ltb inside Suc.prems(1) by simp
  have rb: "?rb = take (i * ?M) rb @ tb2 @ drop (i * ?M + ?m) rb"
    using copy_chunk_eq [OF fit] ltb by simp
  have lrb: "length ?rb = length fb"
    unfolding rb using ltb inside Suc.prems(1) by simp
  have tk: "take ((i + 1) * ?M) ?rb = take (i * ?M) rb @ tb2"
  proof (cases "?M \<le> length fb - i * ?M")
    case True
    then have "?m = ?M" by simp
    then have "length (take (i * ?M) rb @ tb2) = (i + 1) * ?M"
      using ltb inside Suc.prems(1) by simp
    then show ?thesis
      unfolding rb by (metis append.assoc append_eq_conv_conj)
  next
    case False
    then have "i * ?M + ?m = length rb"
      using inside Suc.prems(1) by simp
    then have "?rb = take (i * ?M) rb @ tb2"
      unfolding rb by simp
    moreover have "length fb \<le> (i + 1) * ?M"
      using False by simp
    ultimately show ?thesis
      using lrb by simp
  qed
  have n: "n = ?n - (i + 1)"
    using Suc.hyps(2) by simp
  have p: "i * ?M + ?M = (i + 1) * ?M"
    by simp
  have ok3: "all_ok (snd (snd (read_chunks drv g fb (i + 1) ((i + 1) * ?M) ?rb d2)))"
    using Suc.prems(2) unfold l p by (simp add: all_ok_def)
  have le: "i + 1 \<le> ?n"
    using lt by simp
  from Suc.hyps(1) [OF n lrb ok3 le]
  obtain cs where cs:
      "map length cs = map (\<lambda>k. min ?M (length fb - k * ?M)) [i + 1..<?n]"
      "e3 = concat (map (\<lambda>(k, c). chunk_read g (k * ?M) c) (zip [i + 1..<?n] cs))"
      "r3 = (FT4222_OK, take ((i + 1) * ?M) ?rb @ concat cs)"
    using l p by auto
  have u: "[i..<?n] = i # [i + 1..<?n]"
    using lt by (simp add: upt_conv_Cons)
  have "map length (tb2 # cs) = map (\<lambda>k. min ?M (length fb - k * ?M)) [i..<?n]"
    unfolding u using cs(1) ltb by simp
  moreover have "e1 @ e2 @ e3
      = concat (map (\<lambda>(k, c). chunk_read g (k * ?M) c) (zip [i..<?n] (tb2 # cs)))"
    unfolding u using e1 e2 s1 s2 cs(2) ltb by (simp add: chunk_read_def)
  moreover have "r3 = (FT4222_OK, take (i * ?M) rb @ concat (tb2 # cs))"
    using cs(3) tk by simp
  ultimately show ?case
    unfolding unfold fst_conv snd_conv by blast
qed

lemma list_ex_differ:
  assumes "length rb = length fb"
  shows "list_ex (\<lambda>i. rb ! i \<noteq> fb ! i) [0..<length fb] = (rb \<noteq> fb)"
proof -
  have e: "(rb = fb) = (\<forall>i<length fb. rb ! i = fb ! i)"
    using assms by (subst list_eq_iff_nth_eq) simp
  show ?thesis
    unfolding e list_ex_iff by auto
qed

lemma length_copy_chunk: "length (copy_chunk rb p tb n) = length rb"
proof -
  have "length (fold (\<lambda>j rb. rb[p + j := tb ! j]) js rb) = length rb" for js
    by (induction js arbitrary: rb) simp_all
  then show ?thesis
    by (simp add: copy_chunk_def)
qed

lemma length_read_chunks:
  "length (snd (fst (read_chunks drv g fb i p rb d))) = length rb"
proof (induction drv g fb i p rb d rule: read_chunks.induct)
  case (1 drv g fb i p rb d)
  show ?case
  proof (cases "int i < chunkCount g fb")
    case False
    then show ?thesis
      by (simp add: read_chunks.simps [of drv g fb i])
  next
    case True
    let ?c = "ReadCmd g # IntToByteVec (int p)"
    let ?n = "nat (bytesToRead g fb i)"
    obtain s1 d1 e1 where w: "WriteSPI drv ?c (length ?c) False d = (s1, d1, e1)"
      by (rule prod_cases3)
    obtain s2 tb2 d2 e2 where r: "ReadSPI drv (replicate ?n 0) ?n True d1 = ((s2, tb2), d2, e2)"
      by (cases "ReadSPI drv (replicate ?n 0) ?n True d1") auto
    obtain r3 d3 e3 where l:
      "read_chunks drv g fb (i + 1) (p + MAX_READ_SIZE g) (copy_chunk rb p tb2 ?n) d2 = (r3, d3, e3)"
      by (rule prod_cases3)
    show ?thesis
    proof (cases "s1 = FT4222_OK \<and> s2 = FT4222_OK")
      case False
      with True w r show ?thesis
        by (auto simp: read_chunks.simps [of drv g fb i] Let_def)
    next
      case ok: True
      have "length (snd r3) = length (copy_chunk rb p tb2 ?n)"
        using "1.IH" [OF True refl refl refl w [symmetric] refl _ r [symmetric] refl refl] ok l
        by simp
      with True w r ok l show ?thesis
        by (simp add: read_chunks.simps [of drv g fb i] Let_def length_copy_chunk)
    qed
  qed
qed

text \<open>
  Claim C8. Take any transport and a validation of a non-empty image whose transfers
  all succeed, with a positive \<open>MAX_READ_SIZE\<close> and an image short enough for the
  \<^verbatim>\<open>int\<close> arithmetic of the source (\<open>len + MAX_READ_SIZE < 2^31\<close>). The image is read in \<open>ceil (len / MAX_READ_SIZE)\<close> chunks, chunk \<open>k\<close>
  of \<open>min MAX_READ_SIZE (len - k * MAX_READ_SIZE)\<close> bytes, each by a \<open>Read\<close> command
  of its own carrying the running address \<open>k * MAX_READ_SIZE\<close>. The chunks together
  are \<open>len\<close> bytes; the validation returns \<open>FT4222_OK\<close> when they equal the image and
  \<open>FT4222_CORRUPTED_UPLOAD\<close> when they do not.
\<close>

theorem ValidateFlash_chunks:
  assumes "fb \<noteq> []" and "0 < MAX_READ_SIZE g"
      and "length fb + MAX_READ_SIZE g < 2 ^ 31"
      and "all_ok (snd (snd (ValidateFlash drv g fb d)))"
  shows "\<exists>cs. map length cs = map (\<lambda>k. min (MAX_READ_SIZE g) (length fb - k * MAX_READ_SIZE g))
                                 [0..<ceil_div (length fb) (MAX_READ_SIZE g)]
            \<and> snd (snd (ValidateFlash drv g fb d)) =
                concat (map (\<lambda>(k, c). chunk_read g (k * MAX_READ_SIZE g) c)
                          (zip [0..<ceil_div (length fb) (MAX_READ_SIZE g)] cs))
            \<and> length (concat cs) = length fb
            \<and> fst (ValidateFlash drv g fb d)
                = (if concat cs = fb then FT4222_OK else FT4222_CORRUPTED_UPLOAD)"
proof -
  let ?r = "read_chunks drv g fb 0 0 (replicate (length fb) 0) d"
  have ev: "snd (snd (ValidateFlash drv g fb d)) = snd (snd ?r)"
    by (simp add: ValidateFlash_def split: prod.splits)
  have len: "0 < length fb"
    using assms(1) by simp
  have ok: "all_ok (snd (snd (read_chunks drv g fb 0 (0 * MAX_READ_SIZE g) (replicate (length fb) 0) d)))"
    using assms(4) ev by simp
  from read_chunks_OK [OF len assms(2) _ ok]
  obtain cs where cs:
      "map length cs = map (\<lambda>k. min (MAX_READ_SIZE g) (length fb - k * MAX_READ_SIZE g))
                         [0..<ceil_div (length fb) (MAX_READ_SIZE g)]"
      "snd (snd ?r) = concat (map (\<lambda>(k, c). chunk_read g (k * MAX_READ_SIZE g) c)
                          (zip [0..<ceil_div (length fb) (MAX_READ_SIZE g)] cs))"
      "fst ?r = (FT4222_OK, concat cs)"
    by auto
  have l: "length (concat cs) = length fb"
  proof -
    have "length (snd (fst ?r)) = length (replicate (length fb) (0 :: uint8))"
      by (rule length_read_chunks)
    then show ?thesis
      using cs(3) by simp
  qed
  have "fst (ValidateFlash drv g fb d) = (if concat cs = fb then FT4222_OK else FT4222_CORRUPTED_UPLOAD)"
    using cs(3) list_ex_differ [OF l]
    by (cases ?r) (auto simp: ValidateFlash_def)
  with cs(1,2) l ev show ?thesis
    by auto
qed

lemmas validate_run_defs = ValidateFlash_def read_chunks.simps chunkCount_def bytesToRead_def
  c_div_def copy_chunk_def WriteSPI_def ReadSPI_def scripted_def stored_def g0_def Let_def
  IntToByteVec_div_mod chunk_read_def ceil_div_def all_ok_def upt_rec

text \<open>
  With \<open>MAX_READ_SIZE = 4\<close>, an image of \<open>2 * 4 + 3\<close> bytes is read in three chunks of
  4, 4 and 3 bytes at the addresses 0, 4 and 8, and accepted when the chunks are the
  image.
\<close>

theorem ValidateFlash_chunks_witness:
  "ValidateFlash scripted (g0\<lparr>MAX_READ_SIZE := 4\<rparr>) [1, 2, 3, 4, 5, 6, 7, 8, 9, 10, 11]
       [(FT4222_OK, []), (FT4222_OK, [1, 2, 3, 4]), (FT4222_OK, []), (FT4222_OK, [5, 6, 7, 8]),
        (FT4222_OK, []), (FT4222_OK, [9, 10, 11])]
     = (FT4222_OK, [],
        chunk_read g0 0 [1, 2, 3, 4] @ chunk_read g0 4 [5, 6, 7, 8] @ chunk_read g0 8 [9, 10, 11])
   \<and> (\<exists>cs. map length cs = [4, 4, 3]
           \<and> chunk_read g0 0 [1, 2, 3, 4] @ chunk_read g0 4 [5, 6, 7, 8] @ chunk_read g0 8 [9, 10, 11]
               = concat (map (\<lambda>(k, c). chunk_read g0 (k * 4) c) (zip [0, 1, 2] cs))
           \<and> length (concat cs) = 11
           \<and> concat cs = [1, 2, 3, 4, 5, 6, 7, 8, 9, 10, 11 :: uint8])"
proof -
  let ?g = "g0\<lparr>MAX_READ_SIZE := 4\<rparr>"
  let ?fb = "[1, 2, 3, 4, 5, 6, 7, 8, 9, 10, 11 :: uint8]"
  let ?script = "[(FT4222_OK, []), (FT4222_OK, [1, 2, 3, 4]), (FT4222_OK, []),
        (FT4222_OK, [5, 6, 7, 8]), (FT4222_OK, []), (FT4222_OK, [9, 10, 11 :: uint8])]"
  let ?evs = "chunk_read g0 0 [1, 2, 3, 4] @ chunk_read g0 4 [5, 6, 7, 8]
        @ chunk_read g0 8 [9, 10, 11]"
  have run: "ValidateFlash scripted ?g ?fb ?script = (FT4222_OK, [], ?evs)"
    by (simp add: validate_run_defs)
  have ok: "all_ok (snd (snd (ValidateFlash scripted ?g ?fb ?script)))"
    unfolding run by (simp add: validate_run_defs)
  have h: "?fb \<noteq> []" "0 < MAX_READ_SIZE ?g" "length ?fb + MAX_READ_SIZE ?g < 2 ^ 31"
    by (simp_all add: g0_def)
  have n: "[0..<ceil_div (length ?fb) (MAX_READ_SIZE ?g)] = [0, 1, 2]"
    by (simp add: ceil_div_def g0_def upt_rec)
  have c: "chunk_read ?g = chunk_read g0"
    by (simp add: chunk_read_def fun_eq_iff g0_def)
  from ValidateFlash_chunks [OF h ok]
  obtain cs where cs:
      "map length cs = map (\<lambda>k. min (MAX_READ_SIZE ?g) (length ?fb - k * MAX_READ_SIZE ?g)) [0, 1, 2]"
      "?evs = concat (map (\<lambda>(k, c). chunk_read g0 (k * MAX_READ_SIZE ?g) c) (zip [0, 1, 2] cs))"
      "length (concat cs) = length ?fb"
      "FT4222_OK = (if concat cs = ?fb then FT4222_OK else FT4222_CORRUPTED_UPLOAD)"
    unfolding run n c fst_conv snd_conv by blast
  have 1: "map length cs = [4, 4, 3]"
    using cs(1) by (simp add: g0_def)
  have 2: "?evs = concat (map (\<lambda>(k, c). chunk_read g0 (k * 4) c) (zip [0, 1, 2] cs))"
    using cs(2) by (simp add: g0_def)
  have 3: "length (concat cs) = 11"
    using cs(3) by simp
  have 4: "concat cs = ?fb"
    using cs(4) by (simp split: if_splits)
  show ?thesis
    by (rule conjI [OF run exI [of _ cs]]) (rule conjI [OF 1 conjI [OF 2 conjI [OF 3 4]]])
qed

subsection \<open>Claim C2: the attempt that uses up the bound\<close>

text \<open>
  The source counts an attempt and compares the count with
  \<open>MAX_SECTOR_PROGRAM_ATTEMPTS\<close> before it tests \<open>success\<close>: the attempt that brings
  the count to the bound never leaves the loop with \<open>FT4222_OK\<close>, whatever was read
  back. With a bound of one no image is ever programmed with success.
\<close>

lemma sector_attempts_last_allowed:
  assumes "sector_attempts drv g fb i bp attempts rb d evs = Some ((s, rb'), d', evs')"
      and "attempts + 1 = MAX_SECTOR_PROGRAM_ATTEMPTS g"
  shows "s \<noteq> FT4222_OK"
  using assms
  by (subst (asm) sector_attempts.simps)
     (auto split: option.splits prod.splits if_splits)

lemma single_attempt_never_succeeds:
  assumes "ProgramFlash drv g fb d = Some (s, d', evs)"
      and "MAX_SECTOR_PROGRAM_ATTEMPTS g = 1" and "0 < sectorCount g fb"
  shows "s \<noteq> FT4222_OK"
proof (cases "sector_attempts drv g fb 0 0 0 [] d []")
  case None
  with assms show ?thesis
    by (simp add: ProgramFlash_def sector_loop.simps [of drv g fb 0])
next
  case (Some r)
  then obtain s1 rb1 d1 e1 where r: "sector_attempts drv g fb 0 0 0 [] d [] = Some ((s1, rb1), d1, e1)"
    by (cases r) auto
  then have "s1 \<noteq> FT4222_OK"
    using assms(2) by (intro sector_attempts_last_allowed [OF r]) simp
  with r assms(1,3) show ?thesis
    by (simp add: ProgramFlash_def sector_loop.simps [of drv g fb 0])
qed

lemmas program_run_defs = ProgramFlash_def sector_loop.simps sector_attempts.simps
  sectorCount_def sectorBuffer_def bytesToTransmit_def errorCount_def ReadSectorFlash_def
  resize_def EraseSector_def glitchy_def flash_run_defs page_program_def polls_def poll_def
  busy_def sector_read_def sector_erase_def

text \<open>
  With one allowed attempt, a flawless run on the idealized flash is reported as a
  corrupted upload, the image in place.
\<close>

lemma single_attempt_run:
  "map_option (\<lambda>(s, d, evs). (s, map (mem d) [0..<4], evs))
       (ProgramFlash (ideal_flash (g0\<lparr>MAX_SECTOR_PROGRAM_ATTEMPTS := 1\<rparr>) (\<lambda>k. 0xAA))
          (g0\<lparr>MAX_SECTOR_PROGRAM_ATTEMPTS := 1\<rparr>) [1, 2, 3, 4] erased)
     = Some (FT4222_CORRUPTED_UPLOAD, [1, 2, 3, 4],
         page_program g0 0 [1, 2] [0x00] @ page_program g0 1 [3, 4] [0x00]
         @ sector_read g0 0 [1, 2, 3, 4])"
  by (simp add: program_run_defs)

text \<open>
  Claim C2. The claim lets a sector pass whose verification succeeds on the final
  allowed attempt. Take \<open>MAX_SECTOR_PROGRAM_ATTEMPTS = 2\<close>, an image of one sector of
  four bytes, the idealized flash and a line that damages the first read-back only.
  The first attempt programs the two pages, reads back a damaged byte and erases the
  sector. The second attempt, the last one allowed, programs the two pages again and
  reads back exactly the image, which the flash then holds. The result is
  \<open>FT4222_CORRUPTED_UPLOAD\<close>.
\<close>

theorem verified_final_attempt_reported_corrupted:
  "map_option (\<lambda>(s, (k, d), evs). (s, map (mem d) [0..<4], evs))
       (ProgramFlash (glitchy (ideal_flash g0 (\<lambda>k. 0xAA))) g0 [1, 2, 3, 4] (1, erased))
     = Some (FT4222_CORRUPTED_UPLOAD, [1, 2, 3, 4],
         page_program g0 0 [1, 2] [0x00] @ page_program g0 1 [3, 4] [0x00]
         @ sector_read g0 0 [2, 2, 3, 4] @ sector_erase g0 0 [0x00]
         @ page_program g0 0 [1, 2] [0x00] @ page_program g0 1 [3, 4] [0x00]
         @ sector_read g0 0 [1, 2, 3, 4])"
  by (simp add: program_run_defs)

end
